theory Spec2Isabelle
  imports Complex_Main
begin

section \<open>Text primitives\<close>

text \<open>
  Every entry point of the library takes \<open>number | string\<close> and immediately turns a
  native number into text (\<open>String(value)\<close>), so an input is modelled by the text the
  code analyses: the string itself, or the rendering \<open>String(value)\<close> of a native number.
  Strings are lists of 8-bit characters.
\<close>

definition is_digit :: "char \<Rightarrow> bool" where
  "is_digit ch = (ch \<in> set ''0123456789'')"

definition digit_char :: "nat \<Rightarrow> char" where
  "digit_char d = ''0123456789'' ! d"

definition char_digit :: "char \<Rightarrow> nat" where
  "char_digit ch =
     (if ch = CHR ''1'' then 1 else if ch = CHR ''2'' then 2 else if ch = CHR ''3'' then 3
      else if ch = CHR ''4'' then 4 else if ch = CHR ''5'' then 5 else if ch = CHR ''6'' then 6
      else if ch = CHR ''7'' then 7 else if ch = CHR ''8'' then 8 else if ch = CHR ''9'' then 9
      else 0)"

definition is_ws :: "char \<Rightarrow> bool" where
  \<comment> \<open>the white space and line terminators of ECMAScript that fit in a byte\<close>
  "is_ws ch = (ch \<in> set [CHR 0x09, CHR 0x0A, CHR 0x0B, CHR 0x0C, CHR 0x0D, CHR 0x20, CHR 0xA0])"

definition trim :: "string \<Rightarrow> string" where
  "trim s = rev (dropWhile is_ws (rev (dropWhile is_ws s)))"

definition is_exp_char :: "char \<Rightarrow> bool" where
  "is_exp_char ch = (ch = CHR ''e'' \<or> ch = CHR ''E'')"

definition is_sign :: "char \<Rightarrow> bool" where
  "is_sign ch = (ch = CHR ''+'' \<or> ch = CHR ''-'')"

definition all_digits :: "string \<Rightarrow> bool" where
  "all_digits s = list_all is_digit s"

definition strip_sign :: "string \<Rightarrow> string" where
  \<comment> \<open>\<open>str.replace(/^[+-]/, "")\<close>\<close>
  "strip_sign s = (case s of [] \<Rightarrow> [] | ch # r \<Rightarrow> if is_sign ch then r else s)"

definition signed_digits :: "string \<Rightarrow> bool" where
  \<comment> \<open>\<open>[+-]?\d+\<close>\<close>
  "signed_digits s = (strip_sign s \<noteq> [] \<and> all_digits (strip_sign s))"

definition before :: "(char \<Rightarrow> bool) \<Rightarrow> string \<Rightarrow> string" where
  "before p s = takeWhile (\<lambda>ch. \<not> p ch) s"

definition after :: "(char \<Rightarrow> bool) \<Rightarrow> string \<Rightarrow> string" where
  "after p s = drop 1 (dropWhile (\<lambda>ch. \<not> p ch) s)"

definition is_dot :: "char \<Rightarrow> bool" where
  "is_dot ch = (ch = CHR ''.'')"

definition strip_leading_zeros :: "string \<Rightarrow> string" where
  \<comment> \<open>\<open>str.replace(/^0+/, "")\<close>\<close>
  "strip_leading_zeros s = dropWhile (\<lambda>ch. ch = CHR ''0'') s"

definition strip_trailing_zeros :: "string \<Rightarrow> string" where
  \<comment> \<open>\<open>str.replace(/0+$/, "")\<close>\<close>
  "strip_trailing_zeros s = rev (dropWhile (\<lambda>ch. ch = CHR ''0'') (rev s))"

primrec split_on :: "char \<Rightarrow> string \<Rightarrow> string list" where
  "split_on d [] = [[]]"
| "split_on d (ch # s) =
     (if ch = d then [] # split_on d s
      else (case split_on d s of [] \<Rightarrow> [[ch]] | p # ps \<Rightarrow> (ch # p) # ps))"

definition part :: "string list \<Rightarrow> nat \<Rightarrow> string" where
  \<comment> \<open>\<open>parts[i] || ""\<close>: a missing part reads as the empty string\<close>
  "part ps i = (if i < length ps then ps ! i else [])"

section \<open>Counting significant figures (sigfig.ts)\<close>

definition sci_coefficient :: "string \<Rightarrow> bool" where
  \<comment> \<open>\<open>\d*\.?\d+\<close>\<close>
  "sci_coefficient s =
     (if list_ex is_dot s
      then all_digits (before is_dot s) \<and> after is_dot s \<noteq> [] \<and> all_digits (after is_dot s)
      else s \<noteq> [] \<and> all_digits s)"

definition scientificMatch :: "string \<Rightarrow> string option" where
  \<comment> \<open>\<open>str.match(/^([+-]?)(\d*\.?\d+)[eE]([+-]?\d+)$/i)\<close>, returning group 2\<close>
  "scientificMatch str =
     (let body = strip_sign str; coefficient = before is_exp_char body
      in if list_ex is_exp_char body \<and> sci_coefficient coefficient
            \<and> signed_digits (after is_exp_char body)
         then Some coefficient else None)"

definition sigfigOf_plain :: "string \<Rightarrow> nat" where
  \<comment> \<open>the part of \<open>sigfigOf\<close> after the scientific-notation test\<close>
  "sigfigOf_plain str0 =
     (let str = strip_sign str0
      in if list_ex is_dot str
         then (let parts = split_on CHR ''.'' str;
                   integerPart = part parts 0;
                   decimalPart = part parts 1;
                   cleanIntegerPart =
                     (if strip_leading_zeros integerPart = [] then ''0''
                      else strip_leading_zeros integerPart)
               in if cleanIntegerPart = ''0''
                  then (let cleanDecimalPart = strip_leading_zeros decimalPart
                        in if length cleanDecimalPart = 0 then 1 else length cleanDecimalPart)
                  else length cleanIntegerPart + length decimalPart)
         else (let str1 = strip_leading_zeros str
               in if str1 = [] then 1 else length (strip_trailing_zeros str1)))"

function sigfigOf :: "string \<Rightarrow> nat" where
  "sigfigOf v =
     (let str = trim v
      in if str = [] \<or> str = ''0'' then 1
         else (case scientificMatch str of
                 Some coefficient \<Rightarrow> sigfigOf coefficient
               | None \<Rightarrow> sigfigOf_plain str))"
  by pat_completeness auto
termination
proof (relation "measure length")
  show "wf (measure length)" by simp
next
  fix v str coefficient
  assume str: "str = trim v" and m: "scientificMatch str = Some coefficient"
  from m have ex: "list_ex is_exp_char (strip_sign str)"
    and c: "coefficient = before is_exp_char (strip_sign str)"
    by (auto simp: scientificMatch_def Let_def split: if_splits)
  have "length (before is_exp_char s) < length s" if "list_ex is_exp_char s" for s
    using that unfolding before_def by (induction s) auto
  from this [OF ex] have "length coefficient < length (strip_sign str)"
    unfolding c .
  moreover have "length (strip_sign str) \<le> length str"
    by (cases str) (simp_all add: strip_sign_def)
  moreover have "length (trim v) \<le> length (dropWhile is_ws v)"
    unfolding trim_def using length_dropWhile_le [of is_ws "rev (dropWhile is_ws v)"] by simp
  moreover have "length (dropWhile is_ws v) \<le> length v"
    by (rule length_dropWhile_le)
  ultimately show "(coefficient, v) \<in> measure length"
    using str by simp
qed

declare sigfigOf.simps [simp del]


section \<open>The decimal capability (big.js)\<close>

text \<open>
  Modelled from the spec: the arbitrary-precision decimal type is an external library
  (big.js) whose code is not among the sources. A value is a sign, a list of decimal
  digits without leading or trailing zeros (\<open>[0]\<close> for zero) and the exponent of the
  first digit. Parsing, rounding (half up, the library's default mode) and the three
  string renderings follow the library's digit-level procedures; sum, difference, product,
  quotient (20 decimal places, half up, the library's default), remainder and comparison
  are the exact operations of the contract, computed on scaled integers. The library
  limits are the documented defaults: exponential notation from \<open>1e21\<close> and below
  \<open>1e-6\<close>, at most \<open>1e6\<close> digits of precision or places.
\<close>

datatype error = Error string

record big =
  big_neg :: bool
  big_c :: "nat list"
  big_e :: int

definition NE :: int where "NE = -7"
definition PE :: int where "PE = 21"
definition DP :: nat where "DP = 20"
definition MAX_DP :: int where "MAX_DP = 1000000"
definition MAX_POWER :: int where "MAX_POWER = 1000000"

definition INVALID_NUMBER :: error where "INVALID_NUMBER = Error ''[big.js] Invalid number''"
definition INVALID_PRECISION :: error where
  "INVALID_PRECISION = Error ''[big.js] Invalid precision''"
definition INVALID_DP :: error where "INVALID_DP = Error ''[big.js] Invalid decimal places''"
definition INVALID_EXPONENT :: error where
  "INVALID_EXPONENT = Error ''[big.js] Invalid exponent''"
definition DIV_BY_ZERO :: error where "DIV_BY_ZERO = Error ''[big.js] Division by zero''"

definition digits_nat :: "nat list \<Rightarrow> nat" where
  "digits_nat ds = foldl (\<lambda>a d. 10 * a + d) 0 ds"

fun nat_digits :: "nat \<Rightarrow> nat list" where
  "nat_digits n = (if n < 10 then [n] else nat_digits (n div 10) @ [n mod 10])"

declare nat_digits.simps [simp del]

definition nat_str :: "nat \<Rightarrow> string" where
  "nat_str n = map digit_char (nat_digits n)"

definition int_str :: "int \<Rightarrow> string" where
  "int_str i = (if i < 0 then CHR ''-'' # nat_str (nat (- i)) else nat_str (nat i))"

definition str_nat :: "string \<Rightarrow> nat" where
  "str_nat s = digits_nat (map char_digit s)"

definition str_int :: "string \<Rightarrow> int" where
  \<comment> \<open>the integer denoted by a text of the form \<open>[+-]?\d+\<close>\<close>
  "str_int s =
     (case s of [] \<Rightarrow> 0
      | ch # r \<Rightarrow> if ch = CHR ''-'' then - int (str_nat r)
                 else if ch = CHR ''+'' then int (str_nat r) else int (str_nat s))"

definition strip0 :: "nat list \<Rightarrow> nat list" where
  \<comment> \<open>remove trailing zero digits\<close>
  "strip0 ds = rev (dropWhile (\<lambda>d. d = 0) (rev ds))"

definition first_digit :: "nat list \<Rightarrow> nat" where
  "first_digit ds = (case ds of [] \<Rightarrow> 0 | d # _ \<Rightarrow> d)"

definition big_zero :: "bool \<Rightarrow> big" where
  "big_zero sg = \<lparr>big_neg = sg, big_c = [0], big_e = 0\<rparr>"

definition is_zero :: "big \<Rightarrow> bool" where
  \<comment> \<open>\<open>x.eq(0)\<close>\<close>
  "is_zero x = (first_digit (big_c x) = 0)"

definition numeric_mantissa :: "string \<Rightarrow> bool" where
  \<comment> \<open>\<open>\d+(\.\d*)?|\.\d+\<close>\<close>
  "numeric_mantissa m =
     (if list_ex is_dot m
      then all_digits (before is_dot m) \<and> all_digits (after is_dot m)
           \<and> (before is_dot m \<noteq> [] \<or> after is_dot m \<noteq> [])
      else m \<noteq> [] \<and> all_digits m)"

definition strip_minus :: "string \<Rightarrow> string" where
  "strip_minus n = (case n of [] \<Rightarrow> [] | ch # r \<Rightarrow> if ch = CHR ''-'' then r else n)"

definition has_minus :: "string \<Rightarrow> bool" where
  "has_minus n = (case n of [] \<Rightarrow> False | ch # r \<Rightarrow> ch = CHR ''-'')"

definition NUMERIC :: "string \<Rightarrow> bool" where
  \<comment> \<open>\<open>/^-?(\d+(\.\d*)?|\.\d+)(e[+-]?\d+)?$/i\<close>\<close>
  "NUMERIC n =
     (let body = strip_minus n
      in numeric_mantissa (before is_exp_char body)
         \<and> (if list_ex is_exp_char body then signed_digits (after is_exp_char body) else True))"

definition parse :: "string \<Rightarrow> error + big" where
  "parse n =
     (if \<not> NUMERIC n then Inl INVALID_NUMBER
      else
        (let body = strip_minus n;
             mantissa = before is_exp_char body;
             ip = before is_dot mantissa;
             fp = after is_dot mantissa;
             ds = map char_digit (ip @ fp);
             e0 = int (length ip)
                  + (if list_ex is_exp_char body then str_int (after is_exp_char body) else 0);
             i = length (takeWhile (\<lambda>d. d = 0) ds)
         in if i = length ds then Inr (big_zero (has_minus n))
            else Inr \<lparr>big_neg = has_minus n, big_c = strip0 (drop i ds),
                      big_e = e0 - int i - 1\<rparr>))"

fun incr :: "nat list \<Rightarrow> bool \<times> nat list" where
  \<comment> \<open>add one to the last digit; the flag is the carry out of the first digit\<close>
  "incr [] = (True, [])"
| "incr (d # ds) =
     (case incr ds of
        (True, ds') \<Rightarrow> if d + 1 > 9 then (True, 0 # ds') else (False, (d + 1) # ds')
      | (False, ds') \<Rightarrow> (False, d # ds'))"

definition big_round :: "big \<Rightarrow> int \<Rightarrow> big" where
  \<comment> \<open>round to \<open>sd\<close> significant digits, half up\<close>
  "big_round x sd =
     (let xc = big_c x
      in if sd < 1
         then (if sd = 0 \<and> first_digit xc \<ge> 5
               then x\<lparr>big_c := [1], big_e := big_e x - sd + 1\<rparr>
               else x\<lparr>big_c := [0], big_e := 0\<rparr>)
         else if nat sd < length xc
         then (if xc ! nat sd \<ge> 5
               then (case incr (take (nat sd) xc) of
                       (True, ds) \<Rightarrow> x\<lparr>big_c := strip0 (1 # ds), big_e := big_e x + 1\<rparr>
                     | (False, ds) \<Rightarrow> x\<lparr>big_c := strip0 ds\<rparr>)
               else x\<lparr>big_c := strip0 (take (nat sd) xc)\<rparr>)
         else x)"

definition pad :: "nat list \<Rightarrow> nat \<Rightarrow> nat list" where
  \<comment> \<open>\<open>for (; x.c.length < n;) x.c.push(0)\<close>\<close>
  "pad ds n = ds @ replicate (n - length ds) 0"

definition stringify :: "big \<Rightarrow> bool \<Rightarrow> bool \<Rightarrow> string" where
  "stringify x doExponential isNonzero =
     (let e = big_e x; s = map digit_char (big_c x); n = length s;
          body =
            (if doExponential
             then take 1 s @ (if n > 1 then CHR ''.'' # drop 1 s else [])
                  @ (if e < 0 then ''e'' else ''e+'') @ int_str e
             else if e < 0 then ''0.'' @ replicate (nat (- e - 1)) CHR ''0'' @ s
             else if e > 0
             then (if e + 1 > int n then s @ replicate (nat (e + 1) - n) CHR ''0''
                   else if e + 1 < int n then take (nat (e + 1)) s @ CHR ''.'' # drop (nat (e + 1)) s
                   else s)
             else if n > 1 then take 1 s @ CHR ''.'' # drop 1 s
             else s)
      in if big_neg x \<and> isNonzero then CHR ''-'' # body else body)"

definition toPrecision :: "big \<Rightarrow> int \<Rightarrow> error + string" where
  "toPrecision x sd =
     (if sd < 1 \<or> sd > MAX_DP then Inl INVALID_PRECISION
      else (let y = big_round x sd;
                z = y\<lparr>big_c := pad (big_c y) (nat sd)\<rparr>
            in Inr (stringify z (sd \<le> big_e z \<or> big_e z \<le> NE \<or> big_e z \<ge> PE)
                      (first_digit (big_c x) \<noteq> 0))))"

definition toFixed :: "big \<Rightarrow> int \<Rightarrow> error + string" where
  "toFixed x dp =
     (if dp < 0 \<or> dp > MAX_DP then Inl INVALID_DP
      else (let y = big_round x (dp + big_e x + 1);
                z = y\<lparr>big_c := pad (big_c y) (nat (dp + big_e y + 1))\<rparr>
            in Inr (stringify z False (first_digit (big_c x) \<noteq> 0))))"

definition toExponential :: "big \<Rightarrow> int \<Rightarrow> error + string" where
  "toExponential x dp =
     (if dp < 0 \<or> dp > MAX_DP then Inl INVALID_DP
      else (let y = big_round x (dp + 1);
                z = y\<lparr>big_c := pad (big_c y) (nat (dp + 1))\<rparr>
            in Inr (stringify z True (first_digit (big_c x) \<noteq> 0))))"

definition toString :: "big \<Rightarrow> string" where
  "toString x = stringify x (big_e x \<le> NE \<or> big_e x \<ge> PE) (first_digit (big_c x) \<noteq> 0)"

subsection \<open>Exact arithmetic on scaled integers\<close>

definition big_scale :: "big \<Rightarrow> int" where
  \<comment> \<open>the exponent of the last digit\<close>
  "big_scale x = big_e x - int (length (big_c x)) + 1"

definition big_mant :: "big \<Rightarrow> int" where
  "big_mant x = (if big_neg x then - int (digits_nat (big_c x)) else int (digits_nat (big_c x)))"

definition big_of_scaled :: "int \<Rightarrow> int \<Rightarrow> big" where
  \<comment> \<open>the value \<open>m * 10 ^ k\<close>\<close>
  "big_of_scaled m k =
     (if m = 0 then big_zero False
      else (let ds = nat_digits (nat \<bar>m\<bar>)
            in \<lparr>big_neg = (m < 0), big_c = strip0 ds, big_e = k + int (length ds) - 1\<rparr>))"

definition aligned :: "big \<Rightarrow> int \<Rightarrow> int" where
  \<comment> \<open>the mantissa of \<open>x\<close> at the scale \<open>k \<le> big_scale x\<close>\<close>
  "aligned x k = big_mant x * 10 ^ nat (big_scale x - k)"

definition big_plus :: "big \<Rightarrow> big \<Rightarrow> big" where
  "big_plus x y =
     (let k = min (big_scale x) (big_scale y) in big_of_scaled (aligned x k + aligned y k) k)"

definition big_minus :: "big \<Rightarrow> big \<Rightarrow> big" where
  "big_minus x y =
     (let k = min (big_scale x) (big_scale y) in big_of_scaled (aligned x k - aligned y k) k)"

definition big_times :: "big \<Rightarrow> big \<Rightarrow> big" where
  "big_times x y = big_of_scaled (big_mant x * big_mant y) (big_scale x + big_scale y)"

definition big_abs :: "big \<Rightarrow> big" where
  "big_abs x = x\<lparr>big_neg := False\<rparr>"

definition big_gt :: "big \<Rightarrow> big \<Rightarrow> bool" where
  "big_gt x y = (let k = min (big_scale x) (big_scale y) in aligned x k > aligned y k)"

definition big_lt :: "big \<Rightarrow> big \<Rightarrow> bool" where
  "big_lt x y = (let k = min (big_scale x) (big_scale y) in aligned x k < aligned y k)"

definition big_div :: "big \<Rightarrow> big \<Rightarrow> error + big" where
  \<comment> \<open>the quotient rounded half up to \<open>DP\<close> decimal places\<close>
  "big_div x y =
     (if is_zero y then Inl DIV_BY_ZERO
      else (let sh = big_scale x - big_scale y + int DP;
                num = \<bar>big_mant x\<bar> * 10 ^ nat sh;
                den = \<bar>big_mant y\<bar> * 10 ^ nat (- sh);
                q = (2 * num + den) div (2 * den)
            in Inr (big_of_scaled (if big_neg x = big_neg y then q else - q) (- int DP))))"

definition big_mod :: "big \<Rightarrow> big \<Rightarrow> error + big" where
  \<comment> \<open>the remainder of the truncated quotient; it has the sign of \<open>x\<close>\<close>
  "big_mod x y =
     (if is_zero y then Inl DIV_BY_ZERO
      else (let k = min (big_scale x) (big_scale y);
                r = \<bar>aligned x k\<bar> mod \<bar>aligned y k\<bar>
            in Inr (big_of_scaled (if big_neg x then - r else r) k)))"

definition big_pow :: "big \<Rightarrow> int \<Rightarrow> error + big" where
  "big_pow x n =
     (if n < - MAX_POWER \<or> n > MAX_POWER then Inl INVALID_EXPONENT
      else (let y = big_of_scaled (big_mant x ^ nat \<bar>n\<bar>) (big_scale x * \<bar>n\<bar>)
            in if n < 0 then big_div (big_of_scaled 1 0) y else Inr y))"

definition big_floor :: "big \<Rightarrow> int" where
  \<comment> \<open>the greatest integer not above the value\<close>
  "big_floor x =
     (if big_scale x \<ge> 0 then big_mant x * 10 ^ nat (big_scale x)
      else big_mant x div 10 ^ nat (- big_scale x))"

section \<open>JavaScript numbers\<close>

text \<open>
  Where the code computes with native numbers (\<open>parseFloat\<close>, \<open>Math.log10\<close>,
  \<open>Math.floor\<close>, \<open>Number.prototype.toPrecision\<close>, \<open>String(number)\<close>), a finite number
  is modelled by the exact decimal it denotes: the binary rounding of IEEE-754 doubles is
  not modelled.
\<close>

datatype jsnum = NaN | Infinite bool | Finite big

definition starts_with :: "string \<Rightarrow> string \<Rightarrow> bool" where
  "starts_with p s = (take (length p) s = p)"

definition exponent_part :: "string \<Rightarrow> int" where
  \<comment> \<open>the value of an exponent part \<open>[eE][+-]?\d+\<close> at the start of the text, else 0\<close>
  "exponent_part r =
     (case r of [] \<Rightarrow> 0
      | ch # t \<Rightarrow>
          if is_exp_char ch
          then (let ds = takeWhile is_digit (strip_sign t)
                in if ds = [] then 0
                   else if starts_with ''-'' t then - int (str_nat ds) else int (str_nat ds))
          else 0)"

definition parseFloat :: "string \<Rightarrow> jsnum" where
  \<comment> \<open>the longest prefix, after leading white space, that is a decimal literal\<close>
  "parseFloat s =
     (let t = dropWhile is_ws s; ng = starts_with ''-'' t; u = strip_sign t
      in if starts_with ''Infinity'' u then Infinite ng
         else (let ip = takeWhile is_digit u;
                   r1 = dropWhile is_digit u;
                   fp = (if starts_with ''.'' r1 then takeWhile is_digit (drop 1 r1) else []);
                   r2 = (if starts_with ''.'' r1 then dropWhile is_digit (drop 1 r1) else r1)
               in if ip = [] \<and> fp = [] then NaN
                  else (let m = int (str_nat (ip @ fp));
                            x = big_of_scaled m (exponent_part r2 - int (length fp))
                        in Finite (x\<lparr>big_neg := ng\<rparr>))))"

definition number_toString :: "jsnum \<Rightarrow> string" where
  \<comment> \<open>\<open>String(number)\<close>\<close>
  "number_toString num =
     (case num of
        NaN \<Rightarrow> ''NaN''
      | Infinite ng \<Rightarrow> (if ng then ''-Infinity'' else ''Infinity'')
      | Finite x \<Rightarrow>
          if is_zero x then ''0''
          else (let s = map digit_char (big_c x); k = int (length s); n = big_e x + 1;
                    body =
                      (if k \<le> n \<and> n \<le> 21 then s @ replicate (nat (n - k)) CHR ''0''
                       else if 0 < n \<and> n \<le> 21 then take (nat n) s @ CHR ''.'' # drop (nat n) s
                       else if - 6 < n \<and> n \<le> 0 then ''0.'' @ replicate (nat (- n)) CHR ''0'' @ s
                       else take 1 s @ (if k > 1 then CHR ''.'' # drop 1 s else [])
                            @ (if n - 1 < 0 then ''e-'' else ''e+'') @ nat_str (nat \<bar>n - 1\<bar>))
                in if big_neg x then CHR ''-'' # body else body))"

definition RANGE_ERROR_PRECISION :: error where
  "RANGE_ERROR_PRECISION = Error ''RangeError: toPrecision() argument must be between 1 and 100''"

definition RANGE_ERROR_REPEAT :: error where
  "RANGE_ERROR_REPEAT = Error ''RangeError: Invalid count value''"

definition number_toPrecision :: "jsnum \<Rightarrow> int \<Rightarrow> error + string" where
  \<comment> \<open>\<open>Number.prototype.toPrecision\<close>\<close>
  "number_toPrecision num p =
     (case num of
        Finite x \<Rightarrow>
          if p < 1 \<or> p > 100 then Inl RANGE_ERROR_PRECISION
          else (let y = big_round x p;
                    z = y\<lparr>big_c := pad (big_c y) (nat p)\<rparr>
                in Inr (stringify z (big_e z < - 6 \<or> big_e z \<ge> p) (\<not> is_zero x)))
      | _ \<Rightarrow> Inr (number_toString num))"

section \<open>Significant-figure formatting (sigfig.ts)\<close>

definition INVALID_SIGFIGS :: error where
  "INVALID_SIGFIGS = Error ''Number of significant figures must be a positive integer''"

definition validateSigfigs :: "int \<Rightarrow> error + unit" where
  "validateSigfigs sigfigs = (if sigfigs \<le> 0 then Inl INVALID_SIGFIGS else Inr ())"

definition validate_optional :: "int option \<Rightarrow> error + unit" where
  \<comment> \<open>\<open>if (sigfigs !== undefined) validateSigfigs(sigfigs)\<close>\<close>
  "validate_optional sigfigs = (case sigfigs of None \<Rightarrow> Inr () | Some n \<Rightarrow> validateSigfigs n)"

definition toSigfig :: "string \<Rightarrow> int \<Rightarrow> error + string" where
  "toSigfig v sigfigs =
     (case validateSigfigs sigfigs of
        Inl err \<Rightarrow> Inl err
      | Inr _ \<Rightarrow>
          (case parse v of
             Inl err \<Rightarrow> Inl err
           | Inr bigNum \<Rightarrow> if is_zero bigNum then Inr ''0'' else toPrecision bigNum sigfigs))"

section \<open>Formatting (formatting.ts)\<close>

definition INVALID_VALUE :: error where
  "INVALID_VALUE = Error ''Invalid input: value must be a valid number''"

definition INVALID_THRESHOLD :: error where
  "INVALID_THRESHOLD = Error ''Rounding threshold must be an integer between 0 and 9''"

definition dad_coefficient :: "string \<Rightarrow> bool" where
  \<comment> \<open>\<open>\d+\.?\d*\<close>\<close>
  "dad_coefficient s =
     (if list_ex is_dot s
      then before is_dot s \<noteq> [] \<and> all_digits (before is_dot s) \<and> all_digits (after is_dot s)
      else s \<noteq> [] \<and> all_digits s)"

definition dad_match :: "string \<Rightarrow> (string \<times> string) option" where
  \<comment> \<open>\<open>str.match(/^([+-]?)(\d+\.?\d*)[eE]([+-]?\d+)$/)\<close>, returning groups 2 and 3\<close>
  "dad_match str =
     (let body = strip_sign str
      in if list_ex is_exp_char body \<and> dad_coefficient (before is_exp_char body)
            \<and> signed_digits (after is_exp_char body)
         then Some (before is_exp_char body, after is_exp_char body) else None)"

definition digitsAfterDecimal :: "string \<Rightarrow> error + int" where
  "digitsAfterDecimal str =
     (if parseFloat str = NaN then Inl INVALID_VALUE
      else if list_ex is_exp_char str
      then (case dad_match str of
              Some (coefficient, ex) \<Rightarrow>
                (let exponent = str_int ex;
                     coeffDecimalPlaces =
                       (if list_ex is_dot coefficient then int (length (after is_dot coefficient))
                        else 0);
                     totalDecimalPlaces = coeffDecimalPlaces - exponent
                 in Inr (max 0 totalDecimalPlaces))
            | None \<Rightarrow> Inr 0)
      else if \<not> list_ex is_dot str then Inr 0
      else Inr (int (length (after is_dot str))))"

fun decimal_places_loop :: "string list \<Rightarrow> int option \<Rightarrow> error + int" where
  \<comment> \<open>the loop of \<open>getDecimalPlacesForAddOrSub\<close>; \<open>None\<close> is the initial \<open>Infinity\<close>\<close>
  "decimal_places_loop [] minDecimalPlaces =
     Inr (case minDecimalPlaces of None \<Rightarrow> 0 | Some m \<Rightarrow> m)"
| "decimal_places_loop (v # vs) minDecimalPlaces =
     (case digitsAfterDecimal v of
        Inl err \<Rightarrow> Inl err
      | Inr decimalPlaces \<Rightarrow>
          if decimalPlaces = 0 then Inr 0
          else decimal_places_loop vs
                 (Some (case minDecimalPlaces of None \<Rightarrow> decimalPlaces
                        | Some m \<Rightarrow> min m decimalPlaces)))"

definition getDecimalPlacesForAddOrSub :: "string list \<Rightarrow> error + int" where
  "getDecimalPlacesForAddOrSub vs = decimal_places_loop vs None"

fun math_min :: "nat list \<Rightarrow> nat option" where
  \<comment> \<open>\<open>Math.min(...)\<close>; \<open>None\<close> is \<open>Infinity\<close>, the minimum of no arguments\<close>
  "math_min [] = None"
| "math_min (n # ns) = (case math_min ns of None \<Rightarrow> Some n | Some m \<Rightarrow> Some (min n m))"

definition getSigfigForMulOrDiv :: "string list \<Rightarrow> nat option" where
  "getSigfigForMulOrDiv vs = math_min (map sigfigOf vs)"

definition toSigfig_min :: "string \<Rightarrow> nat option \<Rightarrow> error + string" where
  \<comment> \<open>\<open>toSigfig\<close> at a count that \<open>Math.min\<close> produced; \<open>Infinity\<close> is not an integer\<close>
  "toSigfig_min v sigfigs =
     (case sigfigs of None \<Rightarrow> Inl INVALID_SIGFIGS | Some n \<Rightarrow> toSigfig v (int n))"

definition digit_match :: "string \<Rightarrow> string option" where
  \<comment> \<open>\<open>str.match(/^(\d)\.?(\d*)e([+-]?\d+)$/i)\<close>, returning group 1 followed by group 2\<close>
  "digit_match str =
     (let m = before is_exp_char str
      in if list_ex is_exp_char str \<and> signed_digits (after is_exp_char str)
         then (case m of
                 [] \<Rightarrow> None
               | d # r \<Rightarrow>
                   (let r' = (if starts_with ''.'' r then drop 1 r else r)
                    in if is_digit d \<and> all_digits r' then Some (d # r') else None))
         else None)"

definition remove_dot :: "string \<Rightarrow> string" where
  \<comment> \<open>\<open>str.replace(".", "")\<close>: the first point only\<close>
  "remove_dot str = before is_dot str @ after is_dot str"

definition check_digit :: "string \<Rightarrow> nat \<Rightarrow> nat option" where
  \<comment> \<open>\<open>parseInt(digits[i] || "0", 10)\<close>; \<open>None\<close> is \<open>NaN\<close>\<close>
  "check_digit digits i =
     (if i < length digits
      then (if is_digit (digits ! i) then Some (char_digit (digits ! i)) else None)
      else Some 0)"

definition round_sf :: "string \<Rightarrow> int \<Rightarrow> int \<Rightarrow> error + string" where
  \<comment> \<open>\<open>round(value, sigfigs, roundingThreshold)\<close>\<close>
  "round_sf v sigfigs roundingThreshold =
     (case validateSigfigs sigfigs of
        Inl err \<Rightarrow> Inl err
      | Inr _ \<Rightarrow>
     (case parse v of
        Inl err \<Rightarrow> Inl err
      | Inr bigNum \<Rightarrow>
          if roundingThreshold < 0 \<or> roundingThreshold > 9 then Inl INVALID_THRESHOLD
          else if is_zero bigNum then Inr ''0''
          else if roundingThreshold = 5 then toPrecision bigNum sigfigs
          else
            (let absNum = big_abs bigNum; isNegative = big_neg bigNum
             in case toPrecision absNum (sigfigs + 10) of
                  Inl err \<Rightarrow> Inl err
                | Inr strWithExtraPrecision \<Rightarrow>
                    (let digits = (case digit_match strWithExtraPrecision of
                                     Some ds \<Rightarrow> ds
                                   | None \<Rightarrow> remove_dot strWithExtraPrecision);
                         checkDigit = check_digit digits (nat sigfigs);
                         magnitude = (if is_zero absNum then 0 else big_e absNum);
                         roundPosition = magnitude - sigfigs + 1
                     in case big_pow (big_of_scaled 10 0) (- roundPosition) of
                          Inl err \<Rightarrow> Inl err
                        | Inr scaleFactor \<Rightarrow>
                            (let scaled = big_times absNum scaleFactor;
                                 truncated = big_of_scaled (big_floor scaled) 0;
                                 roundUp = (case checkDigit of
                                              None \<Rightarrow> False
                                            | Some d \<Rightarrow> int d \<ge> roundingThreshold)
                             in case (if roundUp
                                      then big_div (big_plus truncated (big_of_scaled 1 0)) scaleFactor
                                      else big_div truncated scaleFactor) of
                                  Inl err \<Rightarrow> Inl err
                                | Inr r \<Rightarrow>
                                    toPrecision
                                      (if isNegative then big_times r (big_of_scaled (- 1) 0) else r)
                                      sigfigs)))))"

definition js_zero :: "jsnum \<Rightarrow> bool" where
  \<comment> \<open>\<open>num === 0\<close>\<close>
  "js_zero num = (case num of Finite x \<Rightarrow> is_zero x | _ \<Rightarrow> False)"

definition truthy :: "int option \<Rightarrow> int option" where
  \<comment> \<open>the value of an optional number when it is truthy (defined and not 0)\<close>
  "truthy sigfigs = (case sigfigs of None \<Rightarrow> None | Some n \<Rightarrow> if n = 0 then None else Some n)"

definition zero_form :: "int option \<Rightarrow> error + string" where
  \<comment> \<open>\<open>sigfigs ? `0.${"0".repeat(sigfigs - 1)}e+0` : "0e+0"\<close>\<close>
  "zero_form sigfigs =
     (case truthy sigfigs of
        None \<Rightarrow> Inr ''0e+0''
      | Some n \<Rightarrow>
          if n - 1 < 0 then Inl RANGE_ERROR_REPEAT
          else Inr (''0.'' @ replicate (nat (n - 1)) CHR ''0'' @ ''e+0''))"

definition actual_sigfigs :: "string \<Rightarrow> int option \<Rightarrow> int" where
  \<comment> \<open>\<open>sigfigs || sigfigOf(value)\<close>\<close>
  "actual_sigfigs v sigfigs = (case truthy sigfigs of None \<Rightarrow> int (sigfigOf v) | Some n \<Rightarrow> n)"

definition toScientific :: "string \<Rightarrow> int option \<Rightarrow> error + string" where
  "toScientific v sigfigs =
     (let num = parseFloat v
      in if num = NaN then Inl INVALID_VALUE
         else if js_zero num then zero_form sigfigs
         else
           (let actualSigfigs = actual_sigfigs v sigfigs
            in case validate_optional sigfigs of
                 Inl err \<Rightarrow> Inl err
               | Inr _ \<Rightarrow>
                   (case toSigfig (number_toString num) actualSigfigs of
                      Inl err \<Rightarrow> Inl err
                    | Inr rounded \<Rightarrow>
                        (case parse rounded of
                           Inl err \<Rightarrow> Inl err
                         | Inr bigNum \<Rightarrow> toExponential bigNum (actualSigfigs - 1)))))"

definition toEngineering :: "string \<Rightarrow> int option \<Rightarrow> error + string" where
  "toEngineering v sigfigs =
     (let num = parseFloat v
      in if num = NaN then Inl INVALID_VALUE
         else if js_zero num then zero_form sigfigs
         else
           (let actualSigfigs = actual_sigfigs v sigfigs
            in case validate_optional sigfigs of
                 Inl err \<Rightarrow> Inl err
               | Inr _ \<Rightarrow>
                   (case num of
                      Finite x \<Rightarrow>
                        (let sign = (if big_neg x then ''-'' else []);
                             absNum = big_abs x;
                             engineeringExponent = (big_e absNum div 3) * 3;
                             coefficient =
                               Finite (absNum\<lparr>big_e := big_e absNum - engineeringExponent\<rparr>)
                         in case number_toPrecision coefficient actualSigfigs of
                              Inl err \<Rightarrow> Inl err
                            | Inr text \<Rightarrow>
                                Inr (sign @ number_toString (parseFloat text) @ ''e''
                                     @ (if engineeringExponent \<ge> 0 then ''+'' else [])
                                     @ int_str engineeringExponent))
                    | Infinite ng \<Rightarrow> Inr ((if ng then ''-'' else []) @ ''NaNe+Infinity'')
                    | NaN \<Rightarrow> Inl INVALID_VALUE)))"

section \<open>Arithmetic (arithmetic.ts)\<close>

definition INVALID_OPERANDS :: error where
  "INVALID_OPERANDS = Error ''Invalid input: both operands must be valid numbers''"

definition DIVISION_BY_ZERO :: error where
  "DIVISION_BY_ZERO = Error ''Division by zero is not allowed''"

definition MODULO_BY_ZERO :: error where
  "MODULO_BY_ZERO = Error ''Division by zero: modulo by zero is undefined''"

definition NOT_AN_ARRAY :: error where
  "NOT_AN_ARRAY = Error ''Input must be an array''"

definition NO_VALID_NUMBERS :: error where
  "NO_VALID_NUMBERS = Error ''No valid numbers found in array''"

definition catch_all :: "error + 'a \<Rightarrow> error \<Rightarrow> error + 'a" where
  \<comment> \<open>\<open>try { ... } catch { throw new Error(msg) }\<close>\<close>
  "catch_all body err = (case body of Inl _ \<Rightarrow> Inl err | Inr r \<Rightarrow> Inr r)"

definition catch_unless :: "error + 'a \<Rightarrow> error \<Rightarrow> error \<Rightarrow> error + 'a" where
  \<comment> \<open>\<open>try { ... } catch (error) { if (error.message === keep) throw error; throw new Error(msg) }\<close>\<close>
  "catch_unless body keep err =
     (case body of Inl e \<Rightarrow> if e = keep then Inl e else Inl err | Inr r \<Rightarrow> Inr r)"

definition add :: "string \<Rightarrow> string \<Rightarrow> int option \<Rightarrow> error + string" where
  "add a b toSigfigParam =
     (case validate_optional toSigfigParam of
        Inl err \<Rightarrow> Inl err
      | Inr _ \<Rightarrow>
          catch_all
            (case parse a of
               Inl err \<Rightarrow> Inl err
             | Inr bigA \<Rightarrow>
                 (case parse b of
                    Inl err \<Rightarrow> Inl err
                  | Inr bigB \<Rightarrow>
                      (let result = big_plus bigA bigB
                       in case toSigfigParam of
                            Some n \<Rightarrow> toSigfig (toString result) n
                          | None \<Rightarrow>
                              (case getDecimalPlacesForAddOrSub [a, b] of
                                 Inl err \<Rightarrow> Inl err
                               | Inr decimalPlaces \<Rightarrow> toFixed result decimalPlaces))))
            INVALID_OPERANDS)"

definition sub :: "string \<Rightarrow> string \<Rightarrow> int option \<Rightarrow> error + string" where
  "sub a b toSigfigParam =
     (case validate_optional toSigfigParam of
        Inl err \<Rightarrow> Inl err
      | Inr _ \<Rightarrow>
          catch_all
            (case parse a of
               Inl err \<Rightarrow> Inl err
             | Inr bigA \<Rightarrow>
                 (case parse b of
                    Inl err \<Rightarrow> Inl err
                  | Inr bigB \<Rightarrow>
                      (let result = big_minus bigA bigB
                       in case toSigfigParam of
                            Some n \<Rightarrow> toSigfig (toString result) n
                          | None \<Rightarrow>
                              (case getDecimalPlacesForAddOrSub [a, b] of
                                 Inl err \<Rightarrow> Inl err
                               | Inr decimalPlaces \<Rightarrow> toFixed result decimalPlaces))))
            INVALID_OPERANDS)"

definition div_sf :: "string \<Rightarrow> string \<Rightarrow> int option \<Rightarrow> error + string" where
  \<comment> \<open>\<open>div(a, b, toSigfigParam)\<close>\<close>
  "div_sf a b toSigfigParam =
     (case validate_optional toSigfigParam of
        Inl err \<Rightarrow> Inl err
      | Inr _ \<Rightarrow>
          catch_unless
            (case parse a of
               Inl err \<Rightarrow> Inl err
             | Inr bigA \<Rightarrow>
                 (case parse b of
                    Inl err \<Rightarrow> Inl err
                  | Inr bigB \<Rightarrow>
                      if is_zero bigB then Inl DIVISION_BY_ZERO
                      else (case big_div bigA bigB of
                              Inl err \<Rightarrow> Inl err
                            | Inr result \<Rightarrow>
                                (case toSigfigParam of
                                   Some n \<Rightarrow> toSigfig (toString result) n
                                 | None \<Rightarrow>
                                     toSigfig_min (toString result)
                                       (getSigfigForMulOrDiv [a, b])))))
            DIVISION_BY_ZERO INVALID_OPERANDS)"

definition mod_sf :: "string \<Rightarrow> string \<Rightarrow> int option \<Rightarrow> error + string" where
  \<comment> \<open>\<open>mod(a, b, toSigfigParam)\<close>\<close>
  "mod_sf a b toSigfigParam =
     (case validate_optional toSigfigParam of
        Inl err \<Rightarrow> Inl err
      | Inr _ \<Rightarrow>
          catch_unless
            (case parse a of
               Inl err \<Rightarrow> Inl err
             | Inr bigA \<Rightarrow>
                 (case parse b of
                    Inl err \<Rightarrow> Inl err
                  | Inr bigB \<Rightarrow>
                      if is_zero bigB then Inl MODULO_BY_ZERO
                      else (case big_mod bigA bigB of
                              Inl err \<Rightarrow> Inl err
                            | Inr result \<Rightarrow>
                                (case toSigfigParam of
                                   Some n \<Rightarrow> toSigfig (toString result) n
                                 | None \<Rightarrow>
                                     toSigfig_min (toString result)
                                       (getSigfigForMulOrDiv [a, b])))))
            MODULO_BY_ZERO INVALID_OPERANDS)"

definition math_floor :: "jsnum \<Rightarrow> jsnum" where
  \<comment> \<open>\<open>Math.floor\<close>\<close>
  "math_floor num = (case num of Finite x \<Rightarrow> Finite (big_of_scaled (big_floor x) 0) | _ \<Rightarrow> num)"

definition idiv :: "string \<Rightarrow> string \<Rightarrow> int option \<Rightarrow> error + string" where
  "idiv a b toSigfigParam =
     (case validate_optional toSigfigParam of
        Inl err \<Rightarrow> Inl err
      | Inr _ \<Rightarrow>
          catch_unless
            (case parse a of
               Inl err \<Rightarrow> Inl err
             | Inr bigA \<Rightarrow>
                 (case parse b of
                    Inl err \<Rightarrow> Inl err
                  | Inr bigB \<Rightarrow>
                      if is_zero bigB then Inl DIVISION_BY_ZERO
                      else (case big_div bigA bigB of
                              Inl err \<Rightarrow> Inl err
                            | Inr divResult \<Rightarrow>
                                (let result = math_floor (parseFloat (toString divResult))
                                 in case toSigfigParam of
                                      Some n \<Rightarrow> toSigfig (number_toString result) n
                                    | None \<Rightarrow>
                                        toSigfig_min (number_toString result)
                                          (getSigfigForMulOrDiv [a, b])))))
            DIVISION_BY_ZERO INVALID_OPERANDS)"

datatype values_arg = NotAnArray | Array "string option list"

text \<open>
  The argument of \<open>max\<close> and \<open>min\<close>: something that is not an array, or an array whose
  elements are \<open>null\<close>/\<open>undefined\<close> (\<open>None\<close>) or the text of a number or string.
\<close>

fun valid_pairs :: "string option list \<Rightarrow> (string \<times> big) list" where
  "valid_pairs [] = []"
| "valid_pairs (v # vs) =
     (case v of
        None \<Rightarrow> valid_pairs vs
      | Some s \<Rightarrow>
          (case parse s of
             Inl _ \<Rightarrow> valid_pairs vs
           | Inr bigNum \<Rightarrow> (s, bigNum) # valid_pairs vs))"

fun max_loop :: "big \<Rightarrow> (string \<times> big) list \<Rightarrow> big" where
  "max_loop maxBig [] = maxBig"
| "max_loop maxBig (pair # pairs) =
     max_loop (if big_gt (snd pair) maxBig then snd pair else maxBig) pairs"

fun min_loop :: "big \<Rightarrow> (string \<times> big) list \<Rightarrow> big" where
  "min_loop minBig [] = minBig"
| "min_loop minBig (pair # pairs) =
     min_loop (if big_lt (snd pair) minBig then snd pair else minBig) pairs"

definition compare_sigfigs :: "(string \<times> big) list \<Rightarrow> nat option" where
  \<comment> \<open>\<open>Math.min(...validPairs.map((pair) => sigfigOf(pair.original)))\<close>\<close>
  "compare_sigfigs validPairs = math_min (map (\<lambda>pair. sigfigOf (fst pair)) validPairs)"

definition max_sf :: "values_arg \<Rightarrow> int option \<Rightarrow> error + string" where
  \<comment> \<open>\<open>max(values, sigfigs)\<close>\<close>
  "max_sf vals sigfigs =
     (case validate_optional sigfigs of
        Inl err \<Rightarrow> Inl err
      | Inr _ \<Rightarrow>
          (case vals of
             NotAnArray \<Rightarrow> Inl NOT_AN_ARRAY
           | Array vs \<Rightarrow>
               (case valid_pairs vs of
                  [] \<Rightarrow> Inl NO_VALID_NUMBERS
                | pair # pairs \<Rightarrow>
                    (let maxBig = max_loop (snd pair) pairs
                     in case sigfigs of
                          Some n \<Rightarrow> toSigfig (toString maxBig) n
                        | None \<Rightarrow>
                            toSigfig_min (toString maxBig)
                              (compare_sigfigs (pair # pairs))))))"

definition min_sf :: "values_arg \<Rightarrow> int option \<Rightarrow> error + string" where
  \<comment> \<open>\<open>min(values, sigfigs)\<close>\<close>
  "min_sf vals sigfigs =
     (case validate_optional sigfigs of
        Inl err \<Rightarrow> Inl err
      | Inr _ \<Rightarrow>
          (case vals of
             NotAnArray \<Rightarrow> Inl NOT_AN_ARRAY
           | Array vs \<Rightarrow>
               (case valid_pairs vs of
                  [] \<Rightarrow> Inl NO_VALID_NUMBERS
                | pair # pairs \<Rightarrow>
                    (let minBig = min_loop (snd pair) pairs
                     in case sigfigs of
                          Some n \<Rightarrow> toSigfig (toString minBig) n
                        | None \<Rightarrow>
                            toSigfig_min (toString minBig)
                              (compare_sigfigs (pair # pairs))))))"

section \<open>Well-formed decimal values\<close>

definition digits_ok :: "nat list \<Rightarrow> bool" where
  "digits_ok ds = list_all (\<lambda>d. d < 10) ds"

definition normal :: "big \<Rightarrow> bool" where
  \<comment> \<open>a non-zero value: decimal digits, no leading and no trailing zero\<close>
  "normal x =
     (big_c x \<noteq> [] \<and> digits_ok (big_c x) \<and> hd (big_c x) \<noteq> 0 \<and> last (big_c x) \<noteq> 0)"

definition trailing_zeros :: "string \<Rightarrow> nat" where
  \<comment> \<open>the number of zero characters at the end of a text\<close>
  "trailing_zeros s = length (takeWhile (\<lambda>ch. ch = CHR ''0'') (rev s))"

definition layout :: "string \<Rightarrow> int \<Rightarrow> string" where
  \<comment> \<open>the text of the digits \<open>s\<close> at exponent \<open>e\<close>, as \<open>toPrecision\<close> lays it out\<close>
  "layout s e =
     (if int (length s) \<le> e \<or> e \<le> NE \<or> PE \<le> e
      then take 1 s @ (if length s > 1 then CHR ''.'' # drop 1 s else [])
           @ CHR ''e'' # (if e < 0 then CHR ''-'' else CHR ''+'') # nat_str (nat \<bar>e\<bar>)
      else if e < 0 then ''0.'' @ replicate (nat (- e - 1)) CHR ''0'' @ s
      else if e + 1 < int (length s) then take (nat (e + 1)) s @ CHR ''.'' # drop (nat (e + 1)) s
      else s)"

definition minus_sign :: "bool \<Rightarrow> string" where
  "minus_sign ng = (if ng then ''-'' else [])"

definition well_formed :: "big \<Rightarrow> bool" where
  \<comment> \<open>what the decimal library produces: zero, or a non-zero value in normal form\<close>
  "well_formed x = ((big_c x = [0] \<and> big_e x = 0) \<or> normal x)"

definition big_val :: "big \<Rightarrow> rat" where
  \<comment> \<open>the rational number a decimal value denotes\<close>
  "big_val x = of_int (big_mant x) * 10 powi big_scale x"

definition half_up :: "rat \<Rightarrow> int \<Rightarrow> rat" where
  \<comment> \<open>the multiple of \<open>10 powi (- dp)\<close> nearest to \<open>v\<close>, a tie going away from zero\<close>
  "half_up v dp = sgn v * of_int \<lfloor>\<bar>v\<bar> * 10 powi dp + 1 / 2\<rfloor> * 10 powi (- dp)"

section \<open>Evaluation support\<close>

lemma nat_digits_numeral [simp]:
  "nat_digits (numeral k) =
     (if (numeral k :: nat) < 10 then [numeral k]
      else nat_digits (numeral k div 10) @ [numeral k mod 10])"
  by (rule nat_digits.simps)

lemma nat_digits_0 [simp]: "nat_digits 0 = [0]"
  by (simp add: nat_digits.simps)

lemma nat_digits_1 [simp]: "nat_digits (Suc 0) = [1]"
  by (simp add: nat_digits.simps)

lemma replicate_numeral [simp]:
  "replicate (numeral k) x = x # replicate (pred_numeral k) x"
  by (simp add: numeral_eq_Suc)

lemmas text_defs = is_digit_def digit_char_def char_digit_def is_ws_def trim_def is_exp_char_def
  is_sign_def all_digits_def strip_sign_def signed_digits_def before_def after_def is_dot_def
  strip_leading_zeros_def strip_trailing_zeros_def part_def starts_with_def

lemmas sigfig_defs = sci_coefficient_def scientificMatch_def sigfigOf_plain_def sigfigOf.simps

lemmas big_defs = NE_def PE_def DP_def MAX_DP_def MAX_POWER_def INVALID_NUMBER_def
  INVALID_PRECISION_def INVALID_DP_def INVALID_EXPONENT_def DIV_BY_ZERO_def digits_nat_def
  nat_str_def int_str_def str_nat_def str_int_def strip0_def first_digit_def big_zero_def
  is_zero_def numeric_mantissa_def strip_minus_def has_minus_def NUMERIC_def parse_def
  big_round_def pad_def stringify_def toPrecision_def toFixed_def toExponential_def toString_def
  big_scale_def big_mant_def big_of_scaled_def aligned_def big_plus_def big_minus_def
  big_times_def big_abs_def big_gt_def big_lt_def big_div_def big_mod_def big_pow_def
  big_floor_def

lemmas js_defs = exponent_part_def parseFloat_def number_toString_def RANGE_ERROR_PRECISION_def
  RANGE_ERROR_REPEAT_def number_toPrecision_def math_floor_def js_zero_def

lemmas fmt_defs = INVALID_SIGFIGS_def validateSigfigs_def validate_optional_def toSigfig_def
  INVALID_VALUE_def INVALID_THRESHOLD_def dad_coefficient_def dad_match_def
  digitsAfterDecimal_def getDecimalPlacesForAddOrSub_def getSigfigForMulOrDiv_def
  toSigfig_min_def digit_match_def remove_dot_def check_digit_def round_sf_def truthy_def
  zero_form_def actual_sigfigs_def toScientific_def toEngineering_def

lemmas arith_defs = INVALID_OPERANDS_def DIVISION_BY_ZERO_def MODULO_BY_ZERO_def NOT_AN_ARRAY_def
  NO_VALID_NUMBERS_def catch_all_def catch_unless_def add_def sub_def div_sf_def mod_sf_def
  idiv_def compare_sigfigs_def max_sf_def min_sf_def

lemmas all_defs = text_defs sigfig_defs big_defs js_defs fmt_defs arith_defs Let_def

section \<open>The counter is total\<close>

lemma strip_trailing_zeros_nonempty:
  assumes "s \<noteq> []" and "hd s \<noteq> CHR ''0''"
  shows "strip_trailing_zeros s \<noteq> []"
proof -
  from assms obtain ch r where s: "s = ch # r" and ch: "ch \<noteq> CHR ''0''"
    by (cases s) auto
  have "dropWhile (\<lambda>c. c = CHR ''0'') (rev r @ [ch]) \<noteq> []"
    using ch by (simp add: dropWhile_append)
  then show ?thesis by (simp add: strip_trailing_zeros_def s)
qed

lemma strip_leading_zeros_hd:
  "strip_leading_zeros s \<noteq> [] \<Longrightarrow> hd (strip_leading_zeros s) \<noteq> CHR ''0''"
  unfolding strip_leading_zeros_def using hd_dropWhile [of "\<lambda>c. c = CHR ''0''" s] by simp

lemma sigfigOf_plain_pos: "0 < sigfigOf_plain s"
proof (cases "list_ex is_dot (strip_sign s)")
  case True
  then show ?thesis
    unfolding sigfigOf_plain_def Let_def by (simp split: if_splits)
next
  case False
  show ?thesis
  proof (cases "strip_leading_zeros (strip_sign s) = []")
    case True
    with False show ?thesis unfolding sigfigOf_plain_def Let_def by simp
  next
    case nz: False
    from strip_trailing_zeros_nonempty [OF nz strip_leading_zeros_hd [OF nz]]
    have "0 < length (strip_trailing_zeros (strip_leading_zeros (strip_sign s)))" by simp
    with False nz show ?thesis unfolding sigfigOf_plain_def Let_def by simp
  qed
qed

text \<open>
  C8, as the code has it: \<open>sigfigOf\<close> has no failure path. For every text, parseable as a
  decimal or not, it returns a count of at least 1.
\<close>

theorem sigfigOf_total: "1 \<le> sigfigOf v"
proof (induction v rule: sigfigOf.induct)
  case (1 v)
  show ?case
  proof (cases "trim v = [] \<or> trim v = ''0''")
    case True
    then show ?thesis by (subst sigfigOf.simps) (simp add: Let_def)
  next
    case False
    show ?thesis
    proof (cases "scientificMatch (trim v)")
      case None
      with False sigfigOf_plain_pos [of "trim v"] show ?thesis
        by (subst sigfigOf.simps) (simp add: Let_def Suc_le_eq)
    next
      case (Some coefficient)
      with False "1.IH" [OF refl _ Some] show ?thesis
        by (subst sigfigOf.simps) (simp add: Let_def)
    qed
  qed
qed

text \<open>
  C8, as stated, fails: the text \<open>abc\<close> is no decimal (the decimal parser and
  \<open>parseFloat\<close> both reject it), yet \<open>sigfigOf\<close> returns the count 3 instead of raising.
\<close>

theorem sigfigOf_unparsable_counterexample:
  "parse ''abc'' = Inl INVALID_NUMBER \<and> parseFloat ''abc'' = NaN \<and> sigfigOf ''abc'' = 3"
  by (simp add: all_defs)

section \<open>Zero in the notation formatters\<close>

text \<open>
  C10: when the numeric value of the input is zero, \<open>toScientific\<close> and \<open>toEngineering\<close>
  return the zero form before the sigfigs parameter is validated: \<open>0e+0\<close> when sigfigs is
  absent or 0 (although \<open>validateSigfigs\<close> rejects 0), and \<open>0.\<close> followed by \<open>n - 1\<close>
  zeros and \<open>e+0\<close> for a positive count \<open>n\<close>.
\<close>

theorem zero_form_before_validation:
  assumes "js_zero (parseFloat v)" and "0 < n"
  shows "toScientific v None = Inr ''0e+0''
       \<and> toScientific v (Some 0) = Inr ''0e+0''
       \<and> toScientific v (Some n) = Inr (''0.'' @ replicate (nat (n - 1)) CHR ''0'' @ ''e+0'')
       \<and> toEngineering v None = Inr ''0e+0''
       \<and> toEngineering v (Some 0) = Inr ''0e+0''
       \<and> toEngineering v (Some n) = Inr (''0.'' @ replicate (nat (n - 1)) CHR ''0'' @ ''e+0'')
       \<and> validateSigfigs 0 = Inl INVALID_SIGFIGS"
proof -
  from assms(1) have nn: "parseFloat v \<noteq> NaN"
    by (auto simp: js_zero_def)
  have z: "zero_form None = Inr ''0e+0''" "zero_form (Some 0) = Inr ''0e+0''"
    "zero_form (Some n) = Inr (''0.'' @ replicate (nat (n - 1)) CHR ''0'' @ ''e+0'')"
    using assms(2) by (simp_all add: zero_form_def truthy_def)
  have s: "toScientific v sf = zero_form sf" for sf
    using assms(1) nn by (simp add: toScientific_def Let_def)
  have e: "toEngineering v sf = zero_form sf" for sf
    using assms(1) nn by (simp add: toEngineering_def Let_def)
  show ?thesis
    by (simp only: s e z validateSigfigs_def) simp
qed


text \<open>
  The theorem at the input \<open>0\<close>; for the non-zero input \<open>5\<close> the same count 0 is rejected.
\<close>

theorem zero_form_witness:
  "js_zero (parseFloat ''0'') \<and> toScientific ''0'' (Some 0) = Inr ''0e+0''
   \<and> toScientific ''0'' (Some 3) = Inr ''0.00e+0'' \<and> toEngineering ''0'' (Some 3) = Inr ''0.00e+0''
   \<and> toScientific ''5'' (Some 0) = Inl INVALID_SIGFIGS"
proof -
  have z: "js_zero (parseFloat ''0'')" by (simp add: all_defs)
  have five: "toScientific ''5'' (Some 0) = Inl INVALID_SIGFIGS" by (simp add: all_defs)
  from zero_form_before_validation [OF z, of 3] z five show ?thesis by simp
qed


section \<open>Division by zero\<close>

text \<open>
  C5, as the code has it: when both operands parse, the divisor is exactly zero and the
  optional sigfigs override is valid, \<open>div\<close> and \<open>idiv\<close> raise the division-by-zero error
  and \<open>mod\<close> raises its own, different one; neither is replaced by the generic
  invalid-input error.
\<close>

theorem division_by_zero_raised:
  assumes "parse a = Inr x" and "parse b = Inr z" and "is_zero z"
    and "validate_optional sf = Inr ()"
  shows "div_sf a b sf = Inl DIVISION_BY_ZERO
       \<and> idiv a b sf = Inl DIVISION_BY_ZERO
       \<and> mod_sf a b sf = Inl MODULO_BY_ZERO
       \<and> MODULO_BY_ZERO \<noteq> DIVISION_BY_ZERO
       \<and> DIVISION_BY_ZERO \<noteq> INVALID_OPERANDS \<and> MODULO_BY_ZERO \<noteq> INVALID_OPERANDS"
  using assms
  by (simp add: div_sf_def idiv_def mod_sf_def catch_unless_def DIVISION_BY_ZERO_def
      MODULO_BY_ZERO_def INVALID_OPERANDS_def)


text \<open>The theorem at \<open>div(5, 0)\<close>, \<open>idiv(5, 0)\<close> and \<open>mod(5, 0)\<close>.\<close>

theorem division_by_zero_witness:
  "div_sf ''5'' ''0'' None = Inl DIVISION_BY_ZERO \<and> idiv ''5'' ''0'' None = Inl DIVISION_BY_ZERO
   \<and> mod_sf ''5'' ''0'' None = Inl MODULO_BY_ZERO"
proof -
  have a: "parse ''5'' = Inr \<lparr>big_neg = False, big_c = [5], big_e = 0\<rparr>"
    by (simp add: all_defs)
  have b: "parse ''0'' = Inr (big_zero False)" by (simp add: all_defs)
  have z: "is_zero (big_zero False)" by (simp add: all_defs)
  have v: "validate_optional None = Inr ()" by (simp add: validate_optional_def)
  from division_by_zero_raised [OF a b z v] show ?thesis by simp
qed


text \<open>
  C5, as stated, fails: the operands are parsed before the divisor is tested, so with the
  unparsable dividend \<open>abc\<close> and the divisor \<open>0\<close> the three operations raise the generic
  invalid-input error, not a division-by-zero error.
\<close>

theorem division_priority_counterexample:
  "parse ''0'' = Inr (big_zero False) \<and> is_zero (big_zero False)
   \<and> div_sf ''abc'' ''0'' None = Inl INVALID_OPERANDS
   \<and> idiv ''abc'' ''0'' None = Inl INVALID_OPERANDS
   \<and> mod_sf ''abc'' ''0'' None = Inl INVALID_OPERANDS
   \<and> INVALID_OPERANDS \<noteq> DIVISION_BY_ZERO \<and> INVALID_OPERANDS \<noteq> MODULO_BY_ZERO"
  by (simp add: all_defs)


text \<open>An unparsable operand is always reported as invalid input.\<close>

lemma unparsable_operand_invalid_input:
  assumes "validate_optional sf = Inr ()" and "parse a = Inl e1 \<or> parse b = Inl e2"
  shows "div_sf a b sf = Inl INVALID_OPERANDS" and "idiv a b sf = Inl INVALID_OPERANDS"
    and "mod_sf a b sf = Inl INVALID_OPERANDS"
proof -
  have ne: "e \<noteq> DIVISION_BY_ZERO" "e \<noteq> MODULO_BY_ZERO" if "parse s = Inl e" for s e
    using that
    by (auto simp: parse_def INVALID_NUMBER_def DIVISION_BY_ZERO_def MODULO_BY_ZERO_def Let_def
        split: if_splits)
  show "div_sf a b sf = Inl INVALID_OPERANDS" "idiv a b sf = Inl INVALID_OPERANDS"
    "mod_sf a b sf = Inl INVALID_OPERANDS"
    using assms ne [of a] ne [of b]
    by (cases "parse a"; cases "parse b";
        simp add: div_sf_def idiv_def mod_sf_def catch_unless_def)+
qed


section \<open>Scientific form with a trailing point\<close>

text \<open>
  C3 at the input \<open>100.e2\<close>, which the decimal parser accepts: the coefficient \<open>100.\<close> has
  3 significant figures, but the pattern for scientific form wants a digit after the point,
  so the text is counted as a plain decimal with fraction \<open>e2\<close> and the result is 5.
\<close>

theorem sigfigOf_scientific_trailing_point:
  "parse ''100.e2'' = Inr \<lparr>big_neg = False, big_c = [1], big_e = 4\<rparr>
   \<and> sigfigOf ''100.'' = 3 \<and> sigfigOf ''100.e2'' = 5"
  by (simp add: all_defs)


section \<open>Engineering notation at a carry\<close>

text \<open>
  C9 at the input 999.999 with 1 significant figure: the exponent 0 is fixed before the
  coefficient is rounded, the rounding carries to 1000, and the result is \<open>1000e+0\<close>: the
  rendered coefficient is not below 1000.
\<close>

theorem toEngineering_carry:
  "toEngineering ''999.999'' (Some 1) = Inr ''1000e+0''"
  by (simp add: all_defs)

section \<open>Supporting lemmas\<close>

subsection \<open>Digits and characters\<close>

lemma digit_char_is_digit: "d < 10 \<Longrightarrow> is_digit (digit_char d)"
proof -
  assume "d < 10"
  then have "d \<in> {0, 1, 2, 3, 4, 5, 6, 7, 8, 9}" by auto
  then show ?thesis by (auto simp: is_digit_def digit_char_def)
qed

lemma char_digit_digit_char: "d < 10 \<Longrightarrow> char_digit (digit_char d) = d"
proof -
  assume "d < 10"
  then have "d \<in> {0, 1, 2, 3, 4, 5, 6, 7, 8, 9}" by auto
  then show ?thesis by (auto simp: char_digit_def digit_char_def)
qed

lemma digit_char_zero: "d < 10 \<Longrightarrow> (digit_char d = CHR ''0'') = (d = 0)"
proof -
  assume "d < 10"
  then have "d \<in> {0, 1, 2, 3, 4, 5, 6, 7, 8, 9}" by auto
  then show ?thesis by (auto simp: digit_char_def)
qed

lemma char_digit_lt: "char_digit ch < 10"
  by (simp add: char_digit_def)

lemma is_digit_not_special:
  assumes "is_digit ch"
  shows "\<not> is_dot ch" "\<not> is_exp_char ch" "\<not> is_sign ch" "\<not> is_ws ch" "ch \<noteq> CHR ''-''"
    "ch \<noteq> CHR ''.''" "ch \<noteq> CHR ''+''" "ch \<noteq> CHR ''e''"
  using assms by (auto simp: is_digit_def is_dot_def is_exp_char_def is_sign_def is_ws_def)

lemma all_digits_map: "digits_ok ds \<Longrightarrow> all_digits (map digit_char ds)"
  by (induction ds) (simp_all add: digits_ok_def all_digits_def digit_char_is_digit)

lemma all_digits_append [simp]: "all_digits (xs @ ys) = (all_digits xs \<and> all_digits ys)"
  by (simp add: all_digits_def)

lemma all_digits_Cons [simp]: "all_digits (x # xs) = (is_digit x \<and> all_digits xs)"
  by (simp add: all_digits_def)

lemma all_digits_Nil [simp]: "all_digits []"
  by (simp add: all_digits_def)

lemma all_digits_replicate0 [simp]: "all_digits (replicate k CHR ''0'')"
  by (induction k) (simp_all add: is_digit_def)

lemma all_digits_take: "all_digits s \<Longrightarrow> all_digits (take k s)"
  by (simp add: all_digits_def list_all_iff) (meson in_set_takeD)

lemma all_digits_drop: "all_digits s \<Longrightarrow> all_digits (drop k s)"
  by (simp add: all_digits_def list_all_iff) (meson in_set_dropD)

lemma all_digits_no:
  assumes "all_digits s"
  shows "\<not> list_ex is_dot s" "\<not> list_ex is_exp_char s" "\<not> list_ex is_ws s"
  using assms is_digit_not_special
  by (auto simp: all_digits_def list_all_iff list_ex_iff)

lemma map_char_digit_map_digit_char:
  "digits_ok ds \<Longrightarrow> map char_digit (map digit_char ds) = ds"
  by (induction ds) (simp_all add: digits_ok_def char_digit_digit_char)

subsection \<open>Splitting a text at a separator\<close>

lemma before_none: "\<not> list_ex p s \<Longrightarrow> before p s = s"
  by (simp add: before_def list_ex_iff)

lemma after_none: "\<not> list_ex p s \<Longrightarrow> after p s = []"
proof -
  assume "\<not> list_ex p s"
  then have h: "dropWhile (\<lambda>ch. \<not> p ch) s = []"
    by (simp add: list_ex_iff)
  show ?thesis unfolding after_def by (simp only: h) simp
qed

lemma before_split: "\<not> list_ex p xs \<Longrightarrow> p ch \<Longrightarrow> before p (xs @ ch # ys) = xs"
  by (simp add: before_def list_ex_iff)

lemma after_split: "\<not> list_ex p xs \<Longrightarrow> p ch \<Longrightarrow> after p (xs @ ch # ys) = ys"
  by (simp add: after_def list_ex_iff)

lemma split_on_none: "d \<notin> set s \<Longrightarrow> split_on d s = [s]"
  by (induction s) auto

lemma split_on_split:
  "d \<notin> set xs \<Longrightarrow> d \<notin> set ys \<Longrightarrow> split_on d (xs @ d # ys) = [xs, ys]"
  by (induction xs) (auto simp: split_on_none)

lemma trim_id:
  assumes "s \<noteq> []" and "\<not> is_ws (hd s)" and "\<not> is_ws (last s)"
  shows "trim s = s"
proof -
  from assms have "dropWhile is_ws s = s" by (cases s) auto
  moreover from assms have "dropWhile is_ws (rev s) = rev s"
    by (cases "rev s") (auto simp: last_rev [symmetric] simp del: last_rev)
  ultimately show ?thesis by (simp add: trim_def)
qed

subsection \<open>Digit lists\<close>

lemma strip0_normal:
  assumes "ds \<noteq> []" and "hd ds \<noteq> 0" and "digits_ok ds"
  shows "strip0 ds \<noteq> []" and "hd (strip0 ds) = hd ds" and "last (strip0 ds) \<noteq> 0"
    and "digits_ok (strip0 ds)" and "length (strip0 ds) \<le> length ds"
proof -
  from assms obtain d r where ds: "ds = d # r" and d: "d \<noteq> 0" by (cases ds) auto
  have dw: "dropWhile (\<lambda>d. d = 0) (rev r @ [d]) \<noteq> []"
    using d by (simp add: dropWhile_append)
  then show ne: "strip0 ds \<noteq> []" by (simp add: strip0_def ds)
  have "\<exists>k. strip0 ds = take k ds" 
    unfolding strip0_def
    by (metis dropWhile_eq_drop rev_drop rev_rev_ident)
  then obtain k where k: "strip0 ds = take k ds" ..
  with ne have "k \<noteq> 0" by auto
  with k show "hd (strip0 ds) = hd ds" by (cases k) (simp_all add: ds)
  from k assms(3) show "digits_ok (strip0 ds)"
    by (simp add: digits_ok_def list_all_iff) (meson in_set_takeD)
  from k show "length (strip0 ds) \<le> length ds" by simp
  have "hd (dropWhile (\<lambda>d. d = 0) (rev ds)) \<noteq> 0"
    using dw hd_dropWhile [of "\<lambda>d. d = 0" "rev ds"] by (simp add: ds)
  with ne show "last (strip0 ds) \<noteq> 0"
    by (simp add: strip0_def last_rev)
qed

lemma strip0_id: "ds \<noteq> [] \<Longrightarrow> last ds \<noteq> 0 \<Longrightarrow> strip0 ds = ds"
proof -
  assume "ds \<noteq> []" and l: "last ds \<noteq> 0"
  then obtain xs x where ds: "ds = xs @ [x]" by (cases ds rule: rev_cases) auto
  with l show ?thesis by (simp add: strip0_def)
qed

lemma strip0_pad:
  assumes "ds \<noteq> []" and "last ds \<noteq> 0"
  shows "strip0 (pad ds n) = ds"
proof -
  from assms obtain xs x where ds: "ds = xs @ [x]" and x: "x \<noteq> 0"
    by (cases ds rule: rev_cases) auto
  have "dropWhile (\<lambda>d. d = 0) (replicate k 0 @ x # rev xs) = x # rev xs" for k :: nat
    using x by (induction k) auto
  then show ?thesis by (simp add: strip0_def pad_def ds)
qed

lemma incr_props:
  assumes "digits_ok ds" and "incr ds = (cy, ds')"
  shows "length ds' = length ds \<and> digits_ok ds'
       \<and> (cy \<longrightarrow> ds' = replicate (length ds) 0)
       \<and> (\<not> cy \<longrightarrow> ds \<noteq> [] \<and> hd ds \<le> hd ds')"
  using assms
proof (induction ds arbitrary: cy ds')
  case Nil
  then show ?case by (simp add: digits_ok_def)
next
  case (Cons d ds)
  obtain cy0 ds0 where i: "incr ds = (cy0, ds0)" by (cases "incr ds")
  from Cons.prems(1) have ok: "digits_ok ds" and d: "d < 10"
    by (simp_all add: digits_ok_def)
  note ih = Cons.IH [OF ok i]
  show ?case
  proof (cases cy0)
    case True
    with ih Cons.prems(2) i d show ?thesis
      by (cases "d + 1 > 9") (auto simp: digits_ok_def)
  next
    case False
    with ih Cons.prems(2) i d show ?thesis
      by (auto simp: digits_ok_def)
  qed
qed

subsection \<open>Parsed and rounded values are well formed\<close>

lemma digits_ok_map_char_digit: "digits_ok (map char_digit s)"
  by (simp add: digits_ok_def list_all_iff char_digit_lt)

lemma digits_ok_dropWhile: "digits_ok ds \<Longrightarrow> digits_ok (dropWhile P ds)"
  by (simp add: digits_ok_def list_all_iff) (meson set_dropWhileD)

lemma digits_ok_take: "digits_ok ds \<Longrightarrow> digits_ok (take k ds)"
  by (simp add: digits_ok_def list_all_iff) (meson in_set_takeD)

lemma parse_unfold:
  fixes s :: string
  defines "ds \<equiv> map char_digit (before is_dot (before is_exp_char (strip_minus s))
                         @ after is_dot (before is_exp_char (strip_minus s)))"
  shows "parse s =
     (if \<not> NUMERIC s then Inl INVALID_NUMBER
      else if dropWhile (\<lambda>d. d = 0) ds = [] then Inr (big_zero (has_minus s))
      else Inr \<lparr>big_neg = has_minus s, big_c = strip0 (dropWhile (\<lambda>d. d = 0) ds),
                big_e = int (length (before is_dot (before is_exp_char (strip_minus s))))
                  + (if list_ex is_exp_char (strip_minus s)
                     then str_int (after is_exp_char (strip_minus s)) else 0)
                  - int (length (takeWhile (\<lambda>d. d = 0) ds)) - 1\<rparr>)"
proof -
  have "(length (takeWhile (\<lambda>d. d = 0) ds) = length ds) = (dropWhile (\<lambda>d. d = 0) ds = [])"
    by (metis dropWhile_eq_Nil_conv takeWhile_eq_all_conv length_takeWhile_le
        takeWhile_eq_take take_all_iff le_refl)
  then show ?thesis
    unfolding parse_def Let_def ds_def dropWhile_eq_drop by simp
qed

lemma parse_cases:
  assumes "parse s = Inr x"
  shows "x = big_zero (has_minus s) \<or> (normal x \<and> big_neg x = has_minus s)"
proof -
  define ds where "ds = map char_digit (before is_dot (before is_exp_char (strip_minus s))
                         @ after is_dot (before is_exp_char (strip_minus s)))"
  define rest where "rest = dropWhile (\<lambda>d. d = 0) ds"
  show ?thesis
  proof (cases "rest = []")
    case True
    with assms show ?thesis
      unfolding parse_unfold ds_def [symmetric] rest_def [symmetric]
      by (simp split: if_splits)
  next
    case ne: False
    then have hd: "hd rest \<noteq> 0"
      unfolding rest_def using hd_dropWhile [of "\<lambda>d. d = 0" ds] by simp
    have ok: "digits_ok rest"
      unfolding rest_def ds_def by (rule digits_ok_dropWhile [OF digits_ok_map_char_digit])
    from assms ne have c: "big_c x = strip0 rest" and n: "big_neg x = has_minus s"
      unfolding parse_unfold ds_def [symmetric] rest_def [symmetric]
      by (auto split: if_splits)
    from strip0_normal [OF ne hd ok] c n hd show ?thesis
      by (simp add: normal_def)
  qed
qed

lemma normal_not_zero: "normal x \<Longrightarrow> \<not> is_zero x"
  by (cases "big_c x") (simp_all add: normal_def is_zero_def first_digit_def)

lemma big_zero_is_zero: "is_zero (big_zero sg)"
  by (simp add: is_zero_def big_zero_def first_digit_def)

lemma parse_nonzero_normal: "parse s = Inr x \<Longrightarrow> \<not> is_zero x \<Longrightarrow> normal x"
  using parse_cases [of s x] big_zero_is_zero by auto

lemma round_normal:
  assumes "normal x" and "1 \<le> sd"
  shows "normal (big_round x sd)" and "length (big_c (big_round x sd)) \<le> nat sd"
    and "big_neg (big_round x sd) = big_neg x"
proof -
  let ?xc = "big_c x"
  from assms(1) have ne: "?xc \<noteq> []" and ok: "digits_ok ?xc" and hd: "hd ?xc \<noteq> 0"
    by (simp_all add: normal_def)
  have all: "normal (big_round x sd) \<and> length (big_c (big_round x sd)) \<le> nat sd
             \<and> big_neg (big_round x sd) = big_neg x"
  proof (cases "nat sd < length ?xc")
    case False
    with assms show ?thesis by (simp add: big_round_def Let_def)
  next
    case lt: True
    let ?k = "take (nat sd) ?xc"
    from assms(2) lt ne have kne: "?k \<noteq> []" by (cases ?xc) (auto simp: take_Cons')
    from assms(2) ne have khd: "hd ?k = hd ?xc" by (cases ?xc) (auto simp: take_Cons')
    have kok: "digits_ok ?k" by (rule digits_ok_take [OF ok])
    have klen: "length ?k = nat sd" using lt by simp
    show ?thesis
    proof (cases "?xc ! nat sd \<ge> 5")
      case False
      from strip0_normal [OF kne _ kok] khd hd klen assms(2) lt False show ?thesis
        by (simp add: big_round_def Let_def normal_def)
    next
      case more: True
      obtain cy ds where i: "incr ?k = (cy, ds)" by (cases "incr ?k")
      note ip = incr_props [OF kok i]
      show ?thesis
      proof (cases cy)
        case True
        with ip lt have ds: "ds = replicate (nat sd) 0" by simp
        have "dropWhile (\<lambda>d. d = 0) (replicate k 0 @ [Suc 0]) = [Suc 0]" for k :: nat
          by (induction k) simp_all
        then have "strip0 (1 # replicate k 0) = [1]" for k :: nat
          by (simp add: strip0_def)
        with True i more \<open>nat sd < length ?xc\<close> assms(2) ds show ?thesis
          by (simp add: big_round_def Let_def normal_def digits_ok_def)
      next
        case False
        with ip have dok: "digits_ok ds" and dlen: "length ds = nat sd"
          and dhd: "hd ?xc \<le> hd ds" using lt by (simp_all add: khd)
        from dlen assms(2) have dne: "ds \<noteq> []" by auto
        from dhd hd have dh: "hd ds \<noteq> 0" by simp
        from strip0_normal [OF dne dh dok] dh dlen False i more \<open>nat sd < length ?xc\<close> assms(2)
        show ?thesis
          by (simp add: big_round_def Let_def normal_def)
      qed
    qed
  qed
  from all show "normal (big_round x sd)" and "length (big_c (big_round x sd)) \<le> nat sd"
    and "big_neg (big_round x sd) = big_neg x" by simp_all
qed

lemma round_id: "length (big_c x) \<le> nat sd \<Longrightarrow> 1 \<le> sd \<Longrightarrow> big_round x sd = x"
  by (simp add: big_round_def Let_def)

subsection \<open>Rendering and reading integers\<close>

lemma nat_digits_props: "nat_digits n \<noteq> [] \<and> digits_ok (nat_digits n) \<and> digits_nat (nat_digits n) = n"
proof (induction n rule: nat_digits.induct)
  case (1 n)
  show ?case
  proof (cases "n < 10")
    case True
    then show ?thesis
      by (subst (1 2 3) nat_digits.simps) (simp add: digits_ok_def digits_nat_def)
  next
    case False
    with 1 have ih: "nat_digits (n div 10) \<noteq> []" "digits_ok (nat_digits (n div 10))"
      "digits_nat (nat_digits (n div 10)) = n div 10" by simp_all
    from False ih show ?thesis
      by (subst (1 2 3) nat_digits.simps) (simp add: digits_ok_def digits_nat_def)
  qed
qed

lemma nat_str_props: "nat_str n \<noteq> []" "all_digits (nat_str n)" "str_nat (nat_str n) = n"
proof -
  from nat_digits_props [of n] show "nat_str n \<noteq> []" "all_digits (nat_str n)"
    by (simp_all add: nat_str_def all_digits_map)
  from nat_digits_props [of n] have "map char_digit (map digit_char (nat_digits n)) = nat_digits n"
    by (simp only: map_char_digit_map_digit_char)
  with nat_digits_props [of n] show "str_nat (nat_str n) = n"
    by (simp only: nat_str_def str_nat_def)
qed

lemma signed_digits_exponent:
  "signed_digits (CHR ''+'' # nat_str k)" "signed_digits (CHR ''-'' # nat_str k)"
  using nat_str_props [of k] by (simp_all add: signed_digits_def strip_sign_def is_sign_def)

lemma exponent_text:
  "(if e < 0 then ''e'' else ''e+'') @ int_str e
     = CHR ''e'' # (if e < 0 then CHR ''-'' else CHR ''+'') # nat_str (nat \<bar>e\<bar>)"
  by (simp add: int_str_def)

lemma str_int_exponent:
  "str_int ((if e < 0 then CHR ''-'' else CHR ''+'') # nat_str (nat \<bar>e\<bar>)) = e"
  using nat_str_props(3) [of "nat \<bar>e\<bar>"] by (simp add: str_int_def)

subsection \<open>The counter on rendered texts\<close>

lemma sigfigOf_unfold:
  assumes "s \<noteq> []" and "\<not> is_ws (hd s)" and "\<not> is_ws (last s)" and "s \<noteq> ''0''"
  shows "sigfigOf s = (case scientificMatch s of Some c \<Rightarrow> sigfigOf c | None \<Rightarrow> sigfigOf_plain s)"
  using assms trim_id [OF assms(1-3)] by (subst sigfigOf.simps) (simp add: Let_def)

lemma scientificMatch_no_exp: "\<not> list_ex is_exp_char s \<Longrightarrow> scientificMatch s = None"
proof -
  assume a: "\<not> list_ex is_exp_char s"
  have "\<not> list_ex is_exp_char (strip_sign s)"
    using a by (cases s) (auto simp: strip_sign_def)
  then show ?thesis by (simp add: scientificMatch_def Let_def)
qed

lemma strip_leading_zeros_id: "s \<noteq> [] \<Longrightarrow> hd s \<noteq> CHR ''0'' \<Longrightarrow> strip_leading_zeros s = s"
  by (cases s) (simp_all add: strip_leading_zeros_def)

lemma strip_leading_zeros_replicate:
  "s \<noteq> [] \<Longrightarrow> hd s \<noteq> CHR ''0'' \<Longrightarrow> strip_leading_zeros (replicate k CHR ''0'' @ s) = s"
  by (induction k) (simp_all add: strip_leading_zeros_id, simp add: strip_leading_zeros_def)

lemma length_strip_trailing_zeros:
  "length (strip_trailing_zeros s) = length s - trailing_zeros s"
  unfolding strip_trailing_zeros_def trailing_zeros_def
  by (simp add: dropWhile_eq_drop)

text \<open>A digit text \<open>s\<close> that starts with a non-zero digit, in the four layouts.\<close>

lemma sigfigOf_plain_whole:
  assumes "all_digits s" and "s \<noteq> []" and "hd s \<noteq> CHR ''0''"
  shows "sigfigOf_plain s = length s - trailing_zeros s"
proof -
  from assms have sg: "strip_sign s = s"
    using is_digit_not_special(3) [of "hd s"] by (cases s) (auto simp: strip_sign_def)
  from assms show ?thesis
    by (simp add: sigfigOf_plain_def sg Let_def all_digits_no strip_leading_zeros_id
        length_strip_trailing_zeros)
qed

lemma dot_notin_digits: "all_digits s \<Longrightarrow> CHR ''.'' \<notin> set s"
  using is_digit_not_special(6) by (auto simp: all_digits_def list_all_iff)

lemma sigfigOf_plain_point:
  assumes "all_digits a" and "all_digits b" and "a \<noteq> []" and "hd a \<noteq> CHR ''0''"
  shows "sigfigOf_plain (a @ CHR ''.'' # b) = length a + length b"
proof -
  from assms have sg: "strip_sign (a @ CHR ''.'' # b) = a @ CHR ''.'' # b"
    using is_digit_not_special(3) [of "hd a"] by (cases a) (auto simp: strip_sign_def)
  have sp: "split_on CHR ''.'' (a @ CHR ''.'' # b) = [a, b]"
    by (rule split_on_split) (simp_all add: dot_notin_digits assms)
  from assms(3,4) have nz: "a \<noteq> ''0''" by auto
  from assms show ?thesis
    by (simp add: sigfigOf_plain_def sg sp Let_def part_def strip_leading_zeros_id
        is_dot_def nz)
qed

lemma sigfigOf_plain_fraction:
  assumes "all_digits s" and "s \<noteq> []" and "hd s \<noteq> CHR ''0''"
  shows "sigfigOf_plain (''0.'' @ replicate k CHR ''0'' @ s) = length s"
proof -
  let ?t = "CHR ''0'' # CHR ''.'' # replicate k CHR ''0'' @ s"
  have sg: "strip_sign ?t = ?t"
    by (simp add: strip_sign_def is_sign_def)
  have "split_on CHR ''.'' (''0'' @ CHR ''.'' # (replicate k CHR ''0'' @ s))
              = [''0'', replicate k CHR ''0'' @ s]"
    by (rule split_on_split) (simp_all add: dot_notin_digits assms)
  then have sp: "split_on CHR ''.'' ?t = [''0'', replicate k CHR ''0'' @ s]" by simp
  have z: "strip_leading_zeros ''0'' = []" by (simp add: strip_leading_zeros_def)
  have d: "list_ex is_dot ?t" by (simp add: is_dot_def)
  from assms(2) have "sigfigOf_plain ?t = length s"
    unfolding sigfigOf_plain_def Let_def sg sp part_def
    by (simp add: is_dot_def z strip_leading_zeros_replicate [OF assms(2,3)])
  then show ?thesis by simp
qed

subsection \<open>The layout of \<open>toPrecision\<close>\<close>

lemma pad_length: "length ds \<le> n \<Longrightarrow> length (pad ds n) = n"
  by (simp add: pad_def)

lemma pad_digits_ok: "digits_ok ds \<Longrightarrow> digits_ok (pad ds n)"
  by (auto simp: pad_def digits_ok_def list_all_iff)

lemma pad_hd: "ds \<noteq> [] \<Longrightarrow> hd (pad ds n) = hd ds"
  by (simp add: pad_def)

lemma toPrecision_layout:
  assumes "normal x" and "1 \<le> sd" and "sd \<le> MAX_DP"
  shows "toPrecision x sd =
     Inr (minus_sign (big_neg x)
          @ layout (map digit_char (pad (big_c (big_round x sd)) (nat sd)))
              (big_e (big_round x sd)))"
proof -
  let ?y = "big_round x sd"
  let ?s = "map digit_char (pad (big_c ?y) (nat sd))"
  let ?e = "big_e ?y"
  note r = round_normal [OF assms(1,2)]
  have len: "length ?s = nat sd" using r(2) by (simp add: pad_length)
  from assms(1) have fd: "first_digit (big_c x) \<noteq> 0"
    by (cases "big_c x") (simp_all add: normal_def first_digit_def)
  have "stringify (?y\<lparr>big_c := pad (big_c ?y) (nat sd)\<rparr>)
          (sd \<le> ?e \<or> ?e \<le> NE \<or> ?e \<ge> PE) True
        = minus_sign (big_neg x) @ layout ?s ?e"
    using assms(2) len r(3)
    by (auto simp: stringify_def layout_def minus_sign_def Let_def exponent_text)
  with assms(2,3) fd show ?thesis
    by (simp add: toPrecision_def Let_def)
qed

lemma rendered_digits:
  assumes "normal y" and "length (big_c y) \<le> n"
  defines "s \<equiv> map digit_char (pad (big_c y) n)"
  shows "all_digits s" and "length s = n" and "s \<noteq> []" and "hd s \<noteq> CHR ''0''"
proof -
  from assms(1) have ne: "big_c y \<noteq> []" and ok: "digits_ok (big_c y)" and h: "hd (big_c y) \<noteq> 0"
    by (simp_all add: normal_def)
  show "all_digits s" unfolding s_def by (rule all_digits_map [OF pad_digits_ok [OF ok]])
  show "length s = n" unfolding s_def using assms(2) by (simp add: pad_length)
  from ne show sne: "s \<noteq> []" unfolding s_def by (simp add: pad_def)
  from ne ok have "hd (big_c y) < 10" by (cases "big_c y") (simp_all add: digits_ok_def)
  with h ne show "hd s \<noteq> CHR ''0''"
    unfolding s_def by (simp add: hd_map pad_def digit_char_zero)
qed

subsection \<open>Counting the significant figures of a laid-out text\<close>

lemma is_digit_hd_not_sign: "body \<noteq> [] \<Longrightarrow> is_digit (hd body) \<Longrightarrow> strip_sign body = body"
  using is_digit_not_special(3) [of "hd body"] by (cases body) (auto simp: strip_sign_def)

lemma sigfigOf_minus:
  assumes "body \<noteq> []" and "is_digit (hd body)" and "\<not> is_ws (last body)" and "body \<noteq> ''0''"
  shows "sigfigOf (CHR ''-'' # body) = sigfigOf body"
proof -
  have s1: "strip_sign (CHR ''-'' # body) = body" by (simp add: strip_sign_def is_sign_def)
  note s2 = is_digit_hd_not_sign [OF assms(1,2)]
  have m: "scientificMatch (CHR ''-'' # body) = scientificMatch body"
    by (simp add: scientificMatch_def s1 s2)
  have p: "sigfigOf_plain (CHR ''-'' # body) = sigfigOf_plain body"
    by (simp add: sigfigOf_plain_def s1 s2)
  have "sigfigOf (CHR ''-'' # body)
          = (case scientificMatch (CHR ''-'' # body) of Some c \<Rightarrow> sigfigOf c
             | None \<Rightarrow> sigfigOf_plain (CHR ''-'' # body))"
    using assms by (intro sigfigOf_unfold) (simp_all add: is_ws_def)
  moreover have "sigfigOf body
          = (case scientificMatch body of Some c \<Rightarrow> sigfigOf c | None \<Rightarrow> sigfigOf_plain body)"
    using assms is_digit_not_special(4) [of "hd body"] by (intro sigfigOf_unfold) simp_all
  ultimately show ?thesis by (cases "scientificMatch body") (simp_all add: m p)
qed

lemma trailing_zeros_single: "d \<noteq> CHR ''0'' \<Longrightarrow> trailing_zeros [d] = 0"
  by (simp add: trailing_zeros_def)

lemma sigfigOf_coefficient:
  assumes "is_digit d" and "d \<noteq> CHR ''0''" and "all_digits r"
  shows "sigfigOf (d # (if r \<noteq> [] then CHR ''.'' # r else [])) = Suc (length r)"
proof -
  let ?c = "d # (if r \<noteq> [] then CHR ''.'' # r else [])"
  have noexp: "\<not> list_ex is_exp_char ?c"
    using assms all_digits_no(2) [OF assms(3)] is_digit_not_special(2) [OF assms(1)]
    by (simp add: is_exp_char_def)
  have lastc: "\<not> is_ws (last ?c)"
  proof (cases "r = []")
    case True
    with assms show ?thesis using is_digit_not_special(4) by simp
  next
    case False
    then have "is_digit (last r)" using assms(3) by (simp add: all_digits_def list_all_iff)
    with False show ?thesis using is_digit_not_special(4) by simp
  qed
  have "sigfigOf ?c = (case scientificMatch ?c of Some c \<Rightarrow> sigfigOf c | None \<Rightarrow> sigfigOf_plain ?c)"
    using assms lastc is_digit_not_special(4) [OF assms(1)]
    by (intro sigfigOf_unfold) simp_all
  also have "\<dots> = sigfigOf_plain ?c"
    by (simp only: scientificMatch_no_exp [OF noexp] option.case)
  also have "\<dots> = Suc (length r)"
  proof (cases "r = []")
    case True
    with assms sigfigOf_plain_whole [of "[d]"] show ?thesis
      by (simp add: trailing_zeros_single)
  next
    case False
    with assms sigfigOf_plain_point [of "[d]" r] show ?thesis by simp
  qed
  finally show ?thesis .
qed

lemma sigfigOf_layout:
  assumes "all_digits s" and "s \<noteq> []" and "hd s \<noteq> CHR ''0''"
  shows "sigfigOf (layout s e) =
     (if int (length s) \<le> e \<or> e \<le> NE \<or> PE \<le> e \<or> e + 1 < int (length s) then length s
      else length s - trailing_zeros s)"
proof -
  from assms obtain d r where s: "s = d # r" and d: "is_digit d" "d \<noteq> CHR ''0''"
    and r: "all_digits r" by (cases s) auto
  note dn = is_digit_not_special [OF d(1)]
  have lasts: "is_digit (last s)" using assms(1,2) by (simp add: all_digits_def list_all_iff)
  consider (exp) "int (length s) \<le> e \<or> e \<le> NE \<or> PE \<le> e"
    | (frac) "\<not> (int (length s) \<le> e \<or> e \<le> NE \<or> PE \<le> e)" "e < 0"
    | (point) "\<not> (int (length s) \<le> e \<or> e \<le> NE \<or> PE \<le> e)" "0 \<le> e" "e + 1 < int (length s)"
    | (whole) "\<not> (int (length s) \<le> e \<or> e \<le> NE \<or> PE \<le> e)" "0 \<le> e" "\<not> e + 1 < int (length s)"
    by linarith
  then show ?thesis
  proof cases
    case exp
    let ?c = "d # (if r \<noteq> [] then CHR ''.'' # r else [])"
    let ?x = "(if e < 0 then CHR ''-'' else CHR ''+'') # nat_str (nat \<bar>e\<bar>)"
    let ?t = "?c @ CHR ''e'' # ?x"
    have lay: "layout s e = ?t" using exp by (simp add: layout_def s)
    have noexp: "\<not> list_ex is_exp_char ?c"
      using all_digits_no(2) [OF r] dn(2) by (simp add: is_exp_char_def)
    have sg: "strip_sign ?t = ?t" using dn(3) by (simp add: strip_sign_def)
    have ex: "list_ex is_exp_char ?t" by (simp add: is_exp_char_def)
    have b: "before is_exp_char ?t = ?c"
      by (rule before_split [OF noexp]) (simp add: is_exp_char_def)
    have a: "after is_exp_char ?t = ?x"
      by (rule after_split [OF noexp]) (simp add: is_exp_char_def)
    have sd: "signed_digits ?x" by (simp add: signed_digits_exponent)
    have sc: "sci_coefficient ?c"
    proof (cases "r = []")
      case True
      with d show ?thesis using dn(1) by (simp add: sci_coefficient_def)
    next
      case False
      have "before is_dot ([d] @ CHR ''.'' # r) = [d]"
        by (rule before_split) (simp_all add: dn(6) is_dot_def)
      moreover have "after is_dot ([d] @ CHR ''.'' # r) = r"
        by (rule after_split) (simp_all add: dn(6) is_dot_def)
      ultimately show ?thesis using False d r
        by (simp add: sci_coefficient_def is_dot_def)
    qed
    have m: "scientificMatch ?t = Some ?c"
      unfolding scientificMatch_def Let_def sg b a using ex sd sc by simp
    have lastx: "is_digit (last ?t)"
      using nat_str_props(1,2) [of "nat \<bar>e\<bar>"] by (simp add: all_digits_def list_all_iff)
    have "sigfigOf ?t = (case scientificMatch ?t of Some c \<Rightarrow> sigfigOf c | None \<Rightarrow> sigfigOf_plain ?t)"
      using dn(4) is_digit_not_special(4) [OF lastx] by (intro sigfigOf_unfold) simp_all
    also have "\<dots> = sigfigOf ?c" by (simp only: m option.case)
    also have "\<dots> = Suc (length r)" by (rule sigfigOf_coefficient [OF d r])
    finally have "sigfigOf (layout s e) = Suc (length r)" by (simp only: lay)
    then have v: "sigfigOf (layout s e) = length s" by (simp add: s)
    from exp have c: "int (length s) \<le> e \<or> e \<le> NE \<or> PE \<le> e \<or> e + 1 < int (length s)"
      by blast
    show ?thesis by (simp only: c if_True v)
  next
    case frac
    let ?t = "''0.'' @ replicate (nat (- e - 1)) CHR ''0'' @ s"
    have lay: "layout s e = ?t" using frac by (simp add: layout_def)
    have noexp: "\<not> list_ex is_exp_char ?t"
      using all_digits_no(2) [OF assms(1)]
        all_digits_no(2) [OF all_digits_replicate0 [of "nat (- e - 1)"]]
      by (simp add: is_exp_char_def)
    have "sigfigOf ?t = (case scientificMatch ?t of Some c \<Rightarrow> sigfigOf c | None \<Rightarrow> sigfigOf_plain ?t)"
      using assms(2) is_digit_not_special(4) [OF lasts]
      by (intro sigfigOf_unfold) (simp_all add: is_ws_def)
    also have "\<dots> = sigfigOf_plain ?t"
      by (simp only: scientificMatch_no_exp [OF noexp] option.case)
    also have "\<dots> = length s" by (rule sigfigOf_plain_fraction [OF assms])
    finally have v: "sigfigOf (layout s e) = length s" by (simp only: lay)
    from frac assms(2) have c: "int (length s) \<le> e \<or> e \<le> NE \<or> PE \<le> e \<or> e + 1 < int (length s)"
      by (cases s) auto
    show ?thesis by (simp only: c if_True v)
  next
    case point
    let ?a = "take (nat (e + 1)) s" and ?b = "drop (nat (e + 1)) s"
    let ?t = "?a @ CHR ''.'' # ?b"
    have lay: "layout s e = ?t" using point by (simp add: layout_def)
    have a: "all_digits ?a" "all_digits ?b"
      using assms(1) by (simp_all add: all_digits_take all_digits_drop)
    from point have ane: "?a \<noteq> []" and ahd: "hd ?a = hd s" using assms(2)
      by (cases s; simp add: take_Cons')+
    from point have bne: "?b \<noteq> []" by simp
    then have lastb: "is_digit (last ?b)" using lasts by simp
    have noexp: "\<not> list_ex is_exp_char ?t"
      using all_digits_no(2) [OF a(1)] all_digits_no(2) [OF a(2)] by (simp add: is_exp_char_def)
    have hda: "is_digit (hd ?a)" unfolding ahd using d(1) by (simp add: s)
    have "sigfigOf ?t = (case scientificMatch ?t of Some c \<Rightarrow> sigfigOf c | None \<Rightarrow> sigfigOf_plain ?t)"
    proof (intro sigfigOf_unfold)
      show "?t \<noteq> []" by simp
      show "\<not> is_ws (hd ?t)" using ane is_digit_not_special(4) [OF hda] by (simp add: hd_append)
      show "\<not> is_ws (last ?t)" using bne is_digit_not_special(4) [OF lastb] by simp
      have "length ?t \<noteq> length ''0''" using ane by (cases ?a) simp_all
      then show "?t \<noteq> ''0''" by metis
    qed
    also have "\<dots> = sigfigOf_plain ?t"
      by (simp only: scientificMatch_no_exp [OF noexp] option.case)
    also have "\<dots> = length ?a + length ?b"
      using assms(3) by (intro sigfigOf_plain_point a ane) (simp add: ahd)
    finally have v: "sigfigOf (layout s e) = length s" using point by (simp add: lay)
    from point have c: "int (length s) \<le> e \<or> e \<le> NE \<or> PE \<le> e \<or> e + 1 < int (length s)"
      by blast
    show ?thesis by (simp only: c if_True v)
  next
    case whole
    have lay: "layout s e = s" using whole by (simp add: layout_def)
    have noexp: "\<not> list_ex is_exp_char s" by (rule all_digits_no(2) [OF assms(1)])
    have s0: "s \<noteq> ''0''" using assms(2,3) by auto
    have "sigfigOf s = (case scientificMatch s of Some c \<Rightarrow> sigfigOf c | None \<Rightarrow> sigfigOf_plain s)"
      using assms(2) s0 is_digit_not_special(4) [OF lasts] dn(4) by (intro sigfigOf_unfold) (simp_all add: s)
    also have "\<dots> = sigfigOf_plain s"
      by (simp only: scientificMatch_no_exp [OF noexp] option.case)
    also have "\<dots> = length s - trailing_zeros s" by (rule sigfigOf_plain_whole [OF assms])
    finally have v: "sigfigOf (layout s e) = length s - trailing_zeros s" by (simp only: lay)
    from whole have c: "\<not> (int (length s) \<le> e \<or> e \<le> NE \<or> PE \<le> e \<or> e + 1 < int (length s))"
      by blast
    show ?thesis by (simp only: c if_False v)
  qed
qed

lemma layout_shape:
  assumes "all_digits s" and "s \<noteq> []" and "hd s \<noteq> CHR ''0''"
  shows "layout s e \<noteq> []" and "is_digit (hd (layout s e))" and "is_digit (last (layout s e))"
    and "layout s e \<noteq> ''0''"
    and "(list_ex is_dot (layout s e) \<or> list_ex is_exp_char (layout s e))
         = (int (length s) \<le> e \<or> e \<le> NE \<or> PE \<le> e \<or> e + 1 < int (length s))"
    and "\<not> (int (length s) \<le> e \<or> e \<le> NE \<or> PE \<le> e \<or> e + 1 < int (length s))
         \<Longrightarrow> layout s e = s"
proof -
  from assms obtain d r where s: "s = d # r" and d: "is_digit d" "d \<noteq> CHR ''0''"
    and r: "all_digits r" by (cases s) auto
  have lasts: "is_digit (last s)" using assms(1,2) by (simp add: all_digits_def list_all_iff)
  have lastn: "is_digit (last (nat_str k))" for k
    using nat_str_props(1,2) [of k] by (simp add: all_digits_def list_all_iff)
  have z: "is_digit CHR ''0''" by (simp add: is_digit_def)
  show "layout s e \<noteq> []" by (simp add: layout_def s)
  show "is_digit (hd (layout s e))"
    using d z by (simp add: layout_def s hd_append)
  show "is_digit (last (layout s e))"
    using lasts lastn nat_str_props(1) assms(2) by (auto simp: layout_def)
  have nd: "\<not> list_ex is_dot t" "\<not> list_ex is_exp_char t" if "all_digits t" for t
    using that by (simp_all add: all_digits_no)
  show "(list_ex is_dot (layout s e) \<or> list_ex is_exp_char (layout s e))
         = (int (length s) \<le> e \<or> e \<le> NE \<or> PE \<le> e \<or> e + 1 < int (length s))"
  proof (cases "int (length s) \<le> e \<or> e \<le> NE \<or> PE \<le> e")
    case True
    then have "list_ex is_exp_char (layout s e)" by (simp add: layout_def is_exp_char_def)
    with True show ?thesis by blast
  next
    case False
    show ?thesis
    proof (cases "e < 0")
      case True
      from assms(2) True have lt: "e + 1 < int (length s)" by (cases s) simp_all
      from True False have "list_ex is_dot (layout s e)" by (simp add: layout_def is_dot_def)
      with lt show ?thesis by blast
    next
      case nonneg: False
      show ?thesis
      proof (cases "e + 1 < int (length s)")
        case True
        with False nonneg show ?thesis by (simp add: layout_def is_dot_def)
      next
        case False
        with \<open>\<not> (int (length s) \<le> e \<or> e \<le> NE \<or> PE \<le> e)\<close> nonneg nd [OF assms(1)]
        show ?thesis by (simp add: layout_def)
      qed
    qed
  qed
  then have de: "(list_ex is_dot (layout s e) \<or> list_ex is_exp_char (layout s e))
         = (int (length s) \<le> e \<or> e \<le> NE \<or> PE \<le> e \<or> e + 1 < int (length s))" .
  show w: "layout s e = s"
    if "\<not> (int (length s) \<le> e \<or> e \<le> NE \<or> PE \<le> e \<or> e + 1 < int (length s))"
    using that assms(2) by (cases s) (auto simp: layout_def)
  show "layout s e \<noteq> ''0''"
  proof (cases "int (length s) \<le> e \<or> e \<le> NE \<or> PE \<le> e \<or> e + 1 < int (length s)")
    case True
    with de have "list_ex is_dot (layout s e) \<or> list_ex is_exp_char (layout s e)" by simp
    then show ?thesis by (auto simp: is_dot_def is_exp_char_def)
  next
    case False
    from w [OF False] d(2) show ?thesis by (simp add: s)
  qed
qed

lemma trailing_zeros_minus: "trailing_zeros (CHR ''-'' # s) = trailing_zeros s"
proof -
  have "takeWhile P (xs @ [y]) = takeWhile P xs" if "\<not> P y" for P and xs :: string and y
    using that by (induction xs) auto
  then show ?thesis by (simp add: trailing_zeros_def)
qed

lemma sigfigOf_signed_layout:
  fixes ng :: bool and e :: int
  assumes "all_digits s" and "s \<noteq> []" and "hd s \<noteq> CHR ''0''"
  defines "t \<equiv> minus_sign ng @ layout s e"
  shows "t \<noteq> ''0''"
    and "sigfigOf t = (if list_ex is_dot t \<or> list_ex is_exp_char t then length s
                       else length s - trailing_zeros t)"
proof -
  note sh = layout_shape [OF assms(1-3), of e]
  let ?c = "int (length s) \<le> e \<or> e \<le> NE \<or> PE \<le> e \<or> e + 1 < int (length s)"
  show "t \<noteq> ''0''" using sh(1,4) by (simp add: t_def minus_sign_def)
  have sf: "sigfigOf t = sigfigOf (layout s e)"
    using sigfigOf_minus [OF sh(1,2) is_digit_not_special(4) [OF sh(3)] sh(4)]
    by (simp add: t_def minus_sign_def)
  have de: "(list_ex is_dot t \<or> list_ex is_exp_char t) = ?c"
    using sh(5) by (auto simp: t_def minus_sign_def is_dot_def is_exp_char_def)
  have tz: "trailing_zeros t = trailing_zeros s" if "\<not> ?c"
    using sh(6) [OF that] by (simp add: t_def minus_sign_def trailing_zeros_minus)
  show "sigfigOf t = (if list_ex is_dot t \<or> list_ex is_exp_char t then length s
                       else length s - trailing_zeros t)"
  proof (cases ?c)
    case True
    then show ?thesis unfolding sf de sigfigOf_layout [OF assms(1-3)] by (simp only: if_True)
  next
    case False
    then show ?thesis unfolding sf de sigfigOf_layout [OF assms(1-3)] tz [OF False]
      by (simp only: if_False)
  qed
qed

lemma sigfigOf_zero_text: "sigfigOf ''0'' = 1"
  by (simp add: sigfigOf.simps trim_def is_ws_def)

section \<open>Counting the significant figures of a rounded value\<close>

text \<open>
  C1, as the code has it: when \<open>round\<close> at the default threshold returns a text for
  \<open>n\<close> significant figures, \<open>sigfigOf\<close> of that text is \<open>n\<close> if the text has a decimal
  point or an exponent; for a plain whole number it is \<open>n\<close> minus the number of trailing
  zeros, and for the text \<open>0\<close> of a zero value it is 1.
\<close>

theorem sigfigOf_round_default:
  assumes "round_sf v n 5 = Inr s"
  shows "sigfigOf s =
     (if s = ''0'' then 1
      else if list_ex is_dot s \<or> list_ex is_exp_char s then nat n
      else nat n - trailing_zeros s)"
proof -
  from assms have n: "1 \<le> n"
    by (simp add: round_sf_def validateSigfigs_def split: if_splits)
  from assms n obtain x where p: "parse v = Inr x"
    by (cases "parse v") (simp_all add: round_sf_def validateSigfigs_def)
  show ?thesis
  proof (cases "is_zero x")
    case True
    with assms n p have "s = ''0''" by (simp add: round_sf_def validateSigfigs_def)
    then show ?thesis by (simp add: sigfigOf_zero_text)
  next
    case False
    with assms n p have tp: "toPrecision x n = Inr s"
      by (simp add: round_sf_def validateSigfigs_def)
    then have m: "n \<le> MAX_DP" by (simp add: toPrecision_def split: if_splits)
    note nx = parse_nonzero_normal [OF p False]
    note rn = round_normal [OF nx n]
    note rd = rendered_digits [OF rn(1,2)]
    from tp toPrecision_layout [OF nx n m]
    have s: "s = minus_sign (big_neg x)
                 @ layout (map digit_char (pad (big_c (big_round x n)) (nat n)))
                     (big_e (big_round x n))" by simp
    from sigfigOf_signed_layout [OF rd(1,3,4), of "big_neg x" "big_e (big_round x n)"]
    show ?thesis unfolding s [symmetric] rd(2) by simp
  qed
qed

text \<open>
  C1, as stated, fails at the input it names: \<open>round(100, 3)\<close> is the whole number
  \<open>100\<close>, whose trailing zeros \<open>sigfigOf\<close> does not count, so the count is 1, not 3.
\<close>

theorem sigfigOf_round_counterexample:
  "round_sf ''100'' 3 5 = Inr ''100'' \<and> sigfigOf ''100'' = 1"
  by (simp add: all_defs)

text \<open>The theorem at two inputs: a text with a decimal point and one with an exponent.\<close>

theorem sigfigOf_round_witness:
  "round_sf ''123.456'' 4 5 = Inr ''123.5'' \<and> sigfigOf ''123.5'' = 4
   \<and> round_sf ''1200'' 3 5 = Inr ''1.20e+3'' \<and> sigfigOf ''1.20e+3'' = 3"
proof -
  have a: "round_sf ''123.456'' 4 5 = Inr ''123.5''" by (simp add: all_defs)
  have b: "round_sf ''1200'' 3 5 = Inr ''1.20e+3''" by (simp add: all_defs)
  from sigfigOf_round_default [OF a] sigfigOf_round_default [OF b] a b show ?thesis
    by (simp add: is_dot_def)
qed

subsection \<open>Parsing a laid-out text\<close>

lemma parse_shape:
  fixes ng dot ex :: bool
  assumes ip: "all_digits ip" and fp: "all_digits fp" and ne: "ip \<noteq> [] \<or> fp \<noteq> []"
    and dot: "dot \<or> fp = []" and sx: "ex \<Longrightarrow> signed_digits X"
  defines "mantissa \<equiv> ip @ (if dot then CHR ''.'' # fp else [])"
  defines "ds \<equiv> map char_digit (ip @ fp)"
  shows "parse (minus_sign ng @ mantissa @ (if ex then CHR ''e'' # X else [])) =
     (if dropWhile (\<lambda>d. d = 0) ds = [] then Inr (big_zero ng)
      else Inr \<lparr>big_neg = ng, big_c = strip0 (dropWhile (\<lambda>d. d = 0) ds),
                big_e = int (length ip) + (if ex then str_int X else 0)
                        - int (length (takeWhile (\<lambda>d. d = 0) ds)) - 1\<rparr>)"
proof -
  let ?body = "mantissa @ (if ex then CHR ''e'' # X else [])"
  let ?t = "minus_sign ng @ ?body"
  have nodot_ip: "\<not> list_ex is_dot ip" and noexp_ip: "\<not> list_ex is_exp_char ip"
    and nodot_fp: "\<not> list_ex is_dot fp" and noexp_fp: "\<not> list_ex is_exp_char fp"
    using all_digits_no [OF ip] all_digits_no [OF fp] by simp_all
  have noexp_m: "\<not> list_ex is_exp_char mantissa"
    using noexp_ip noexp_fp by (simp add: mantissa_def is_exp_char_def)
  have bne: "?body \<noteq> []" using ne dot by (auto simp: mantissa_def)
  have hdb: "hd ?body \<noteq> CHR ''-''"
  proof (cases "ip = []")
    case True
    with ne dot show ?thesis by (simp add: mantissa_def)
  next
    case False
    then have "is_digit (hd ip)" using ip by (cases ip) simp_all
    with False show ?thesis using is_digit_not_special(5) by (simp add: mantissa_def)
  qed
  have sm: "strip_minus ?t = ?body"
    using bne hdb by (cases ?body) (auto simp: strip_minus_def minus_sign_def)
  have hm: "has_minus ?t = ng"
    using bne hdb by (cases ?body) (auto simp: has_minus_def minus_sign_def)
  have ex_iff: "list_ex is_exp_char ?body = ex"
    using noexp_m by (simp add: is_exp_char_def)
  have bm: "before is_exp_char ?body = mantissa"
  proof (cases ex)
    case True
    have "before is_exp_char (mantissa @ CHR ''e'' # X) = mantissa"
      by (rule before_split [OF noexp_m]) (simp add: is_exp_char_def)
    with True show ?thesis by simp
  next
    case False
    with noexp_m show ?thesis by (simp add: before_none)
  qed
  have am: "ex \<Longrightarrow> after is_exp_char ?body = X"
  proof -
    assume ex
    have "after is_exp_char (mantissa @ CHR ''e'' # X) = X"
      by (rule after_split [OF noexp_m]) (simp add: is_exp_char_def)
    with \<open>ex\<close> show ?thesis by simp
  qed
  have b_ip: "before is_dot mantissa = ip" and a_fp: "after is_dot mantissa = fp"
    and d_iff: "list_ex is_dot mantissa = dot"
  proof -
    show "before is_dot mantissa = ip"
    proof (cases dot)
      case True
      have "before is_dot (ip @ CHR ''.'' # fp) = ip"
        by (rule before_split [OF nodot_ip]) (simp add: is_dot_def)
      with True show ?thesis by (simp add: mantissa_def)
    next
      case False
      with nodot_ip show ?thesis by (simp add: mantissa_def before_none)
    qed
    show "after is_dot mantissa = fp"
    proof (cases dot)
      case True
      have "after is_dot (ip @ CHR ''.'' # fp) = fp"
        by (rule after_split [OF nodot_ip]) (simp add: is_dot_def)
      with True show ?thesis by (simp add: mantissa_def)
    next
      case False
      with nodot_ip dot show ?thesis by (simp add: mantissa_def after_none)
    qed
    show "list_ex is_dot mantissa = dot"
      using nodot_ip by (simp add: mantissa_def is_dot_def)
  qed
  have nm: "numeric_mantissa mantissa"
    unfolding numeric_mantissa_def b_ip a_fp d_iff using ip fp ne dot
    by (auto simp: mantissa_def)
  have num: "NUMERIC ?t"
    unfolding NUMERIC_def Let_def sm bm ex_iff using nm sx am by simp
  have e_eq: "(if ex then str_int (after is_exp_char ?body) else 0)
                = (if ex then str_int X else 0)"
    using am by (cases ex) simp_all
  show ?thesis
    unfolding parse_unfold sm bm hm ex_iff b_ip a_fp ds_def e_eq
    by (simp only: num not_True_eq_False if_False)
qed

lemma leading_zeros_none:
  assumes "D \<noteq> []" and "hd D \<noteq> (0::nat)"
  shows "dropWhile (\<lambda>d. d = 0) D = D" and "takeWhile (\<lambda>d. d = 0) D = []"
  using assms by (cases D; simp)+

lemma leading_zeros_block:
  assumes "D \<noteq> []" and "hd D \<noteq> (0::nat)"
  shows "dropWhile (\<lambda>d. d = 0) (replicate k 0 @ D) = D"
    and "takeWhile (\<lambda>d. d = 0) (replicate k 0 @ D) = replicate k 0"
  using assms by (induction k) (simp_all add: leading_zeros_none)

lemma parse_layout:
  assumes ok: "digits_ok D" and ne: "D \<noteq> []" and hd: "hd D \<noteq> 0"
  shows "parse (minus_sign ng @ layout (map digit_char D) e)
         = Inr \<lparr>big_neg = ng, big_c = strip0 D, big_e = e\<rparr>"
proof -
  let ?S = "map digit_char D"
  have S: "all_digits ?S" by (rule all_digits_map [OF ok])
  have len: "length ?S = length D" by simp
  have rt: "map char_digit ?S = D" by (rule map_char_digit_map_digit_char [OF ok])
  note lz = leading_zeros_none [OF ne hd]
  consider (exp) "int (length ?S) \<le> e \<or> e \<le> NE \<or> PE \<le> e"
    | (frac) "\<not> (int (length ?S) \<le> e \<or> e \<le> NE \<or> PE \<le> e)" "e < 0"
    | (point) "\<not> (int (length ?S) \<le> e \<or> e \<le> NE \<or> PE \<le> e)" "0 \<le> e" "e + 1 < int (length ?S)"
    | (whole) "\<not> (int (length ?S) \<le> e \<or> e \<le> NE \<or> PE \<le> e)" "0 \<le> e" "\<not> e + 1 < int (length ?S)"
    by linarith
  then show ?thesis
  proof cases
    case exp
    let ?X = "(if e < 0 then CHR ''-'' else CHR ''+'') # nat_str (nat \<bar>e\<bar>)"
    have lay: "minus_sign ng @ layout ?S e
               = minus_sign ng @ (take 1 ?S @ (if 1 < length ?S then CHR ''.'' # drop 1 ?S else []))
                 @ (if True then CHR ''e'' # ?X else [])"
      using exp by (simp add: layout_def)
    have sx: "signed_digits ?X" by (simp add: signed_digits_exponent)
    have d: "1 < length ?S \<or> drop 1 ?S = []" by (cases D) auto
    have n: "take 1 ?S \<noteq> [] \<or> drop 1 ?S \<noteq> []" using ne by (cases D) auto
    have l1: "length (take 1 ?S) = 1" using ne by (cases D) auto
    have ds: "map char_digit (take 1 ?S @ drop 1 ?S) = D" using rt by simp
    show ?thesis
      unfolding lay
      by (subst parse_shape [OF all_digits_take [OF S] all_digits_drop [OF S] n d sx])
         (simp only: ds lz l1 str_int_exponent if_True if_False ne list.size, simp)
  next
    case frac
    let ?k = "nat (- e - 1)"
    have lay: "minus_sign ng @ layout ?S e
               = minus_sign ng @ (''0'' @ (if True then CHR ''.'' # (replicate ?k CHR ''0'' @ ?S) else []))
                 @ (if False then CHR ''e'' # [] else [])"
      using frac by (simp add: layout_def)
    have z: "all_digits ''0''" by (simp add: is_digit_def)
    have f: "all_digits (replicate ?k CHR ''0'' @ ?S)" using S by simp
    have cz: "char_digit CHR ''0'' = 0" by (simp add: char_digit_def)
    have ds: "map char_digit (''0'' @ replicate ?k CHR ''0'' @ ?S) = replicate (Suc ?k) 0 @ D"
      using rt by (simp add: cz)
    note lb = leading_zeros_block [OF ne hd, of "Suc ?k"]
    show ?thesis
      unfolding lay
      apply (subst parse_shape [OF z f])
         apply simp
        apply simp
       apply simp
      using frac ne by (simp only: ds lb) simp
  next
    case point
    let ?m = "nat (e + 1)"
    have lay: "minus_sign ng @ layout ?S e
               = minus_sign ng @ (take ?m ?S @ (if True then CHR ''.'' # drop ?m ?S else []))
                 @ (if False then CHR ''e'' # [] else [])"
      using point by (simp add: layout_def)
    have n: "take ?m ?S \<noteq> [] \<or> drop ?m ?S \<noteq> []" using ne by simp
    have lm: "length (take ?m ?S) = ?m" using point by simp
    have ds: "map char_digit (take ?m ?S @ drop ?m ?S) = D" using rt by simp
    show ?thesis
      unfolding lay
      apply (subst parse_shape [OF all_digits_take [OF S] all_digits_drop [OF S] n])
        apply simp
       apply simp
      using point ne by (simp only: ds lz lm) simp
  next
    case whole
    have lay: "minus_sign ng @ layout ?S e
               = minus_sign ng @ (?S @ (if False then CHR ''.'' # [] else []))
                 @ (if False then CHR ''e'' # [] else [])"
      using whole ne by (auto simp: layout_def)
    have n: "?S \<noteq> [] \<or> ([]::string) \<noteq> []" using ne by simp
    have ds: "map char_digit (?S @ []) = D" using rt by simp
    from whole have le: "int (length D) = e + 1" by simp
    show ?thesis
      unfolding lay
      apply (subst parse_shape [OF S _ n])
         apply simp
        apply simp
       apply simp
      using le ne by (simp only: ds lz) simp
  qed
qed

section \<open>Rounding twice\<close>

lemma padded_digits:
  assumes "normal y"
  shows "digits_ok (pad (big_c y) n)" and "pad (big_c y) n \<noteq> []" and "hd (pad (big_c y) n) \<noteq> 0"
    and "strip0 (pad (big_c y) n) = big_c y"
  using assms by (simp_all add: normal_def pad_digits_ok pad_hd strip0_pad) (simp add: pad_def)

lemma toPrecision_reparse:
  assumes nx: "normal x" and n: "1 \<le> n" and tp: "toPrecision x n = Inr s"
  shows "parse s = Inr (big_round x n)" and "toPrecision (big_round x n) n = Inr s"
proof -
  let ?y = "big_round x n"
  from tp have m: "n \<le> MAX_DP" by (simp add: toPrecision_def split: if_splits)
  note rn = round_normal [OF nx n]
  note pd = padded_digits [OF rn(1), of "nat n"]
  from tp toPrecision_layout [OF nx n m]
  have s: "s = minus_sign (big_neg x) @ layout (map digit_char (pad (big_c ?y) (nat n))) (big_e ?y)"
    by simp
  have "parse s = Inr \<lparr>big_neg = big_neg x, big_c = strip0 (pad (big_c ?y) (nat n)), big_e = big_e ?y\<rparr>"
    unfolding s by (rule parse_layout [OF pd(1-3)])
  also have "\<lparr>big_neg = big_neg x, big_c = strip0 (pad (big_c ?y) (nat n)), big_e = big_e ?y\<rparr> = ?y"
    using rn(3) pd(4) by (cases ?y) simp
  finally show "parse s = Inr ?y" .
  have id: "big_round ?y n = ?y" by (rule round_id [OF rn(2) n])
  show "toPrecision ?y n = Inr s"
    using toPrecision_layout [OF rn(1) n m] rn(3) by (simp add: id s)
qed

lemma round_fixed_point:
  assumes "round_sf v n 5 = Inr s"
  shows "round_sf s n 5 = Inr s"
proof -
  from assms have n: "1 \<le> n"
    by (simp add: round_sf_def validateSigfigs_def split: if_splits)
  from assms n obtain x where p: "parse v = Inr x"
    by (cases "parse v") (simp_all add: round_sf_def validateSigfigs_def)
  show ?thesis
  proof (cases "is_zero x")
    case True
    with assms n p have s: "s = ''0''" by (simp add: round_sf_def validateSigfigs_def)
    have "parse ''0'' = Inr (big_zero False)" by (simp add: text_defs big_defs Let_def)
    with n show ?thesis
      by (simp add: s round_sf_def validateSigfigs_def big_zero_is_zero)
  next
    case False
    with assms n p have tp: "toPrecision x n = Inr s"
      by (simp add: round_sf_def validateSigfigs_def)
    note nx = parse_nonzero_normal [OF p False]
    note re = toPrecision_reparse [OF nx n tp]
    from round_normal(1) [OF nx n] have "\<not> is_zero (big_round x n)"
      by (rule normal_not_zero)
    with n re show ?thesis
      by (simp add: round_sf_def validateSigfigs_def)
  qed
qed

lemma round_returns:
  assumes "parse v = Inr x" and "1 \<le> n" and "n \<le> MAX_DP"
  shows "\<exists>s. round_sf v n 5 = Inr s"
  using assms by (simp add: round_sf_def validateSigfigs_def toPrecision_def Let_def)

text \<open>
  C7: at the default threshold, rounding the result of \<open>round\<close> again at the same count
  returns it unchanged (when the first call raises an error there is no result to round,
  and both sides are that error); and \<open>round\<close> does return a result for every parseable
  value and every count from 1 to the precision limit of the decimal library.
\<close>

theorem round_idempotent:
  "(case round_sf v n 5 of Inl err \<Rightarrow> Inl err | Inr s \<Rightarrow> round_sf s n 5) = round_sf v n 5
   \<and> (parse v = Inr x \<longrightarrow> 1 \<le> n \<longrightarrow> n \<le> MAX_DP \<longrightarrow> (\<exists>s. round_sf v n 5 = Inr s))"
proof (cases "round_sf v n 5")
  case (Inl err)
  with round_returns [of v x n] show ?thesis by auto
next
  case (Inr s)
  with round_fixed_point [OF Inr] show ?thesis by simp
qed

text \<open>The theorem at \<open>round(123.456, 4)\<close> and at \<open>round(999, 2)\<close>, which carries.\<close>

theorem round_idempotent_witness:
  "parse ''123.456'' = Inr \<lparr>big_neg = False, big_c = [1, 2, 3, 4, 5, 6], big_e = 2\<rparr>
   \<and> (4::int) \<le> MAX_DP
   \<and> round_sf ''123.456'' 4 5 = Inr ''123.5'' \<and> round_sf ''123.5'' 4 5 = Inr ''123.5''
   \<and> round_sf ''999'' 2 5 = Inr ''1.0e+3'' \<and> round_sf ''1.0e+3'' 2 5 = Inr ''1.0e+3''"
proof -
  have p: "parse ''123.456'' = Inr \<lparr>big_neg = False, big_c = [1, 2, 3, 4, 5, 6], big_e = 2\<rparr>"
    by (simp add: text_defs big_defs Let_def)
  have a: "round_sf ''123.456'' 4 5 = Inr ''123.5''" by (simp add: all_defs)
  have b: "round_sf ''999'' 2 5 = Inr ''1.0e+3''" by (simp add: all_defs)
  from round_idempotent [where v = "''123.456''" and n = 4]
    round_idempotent [where v = "''999''" and n = 2] a b p
  show ?thesis by (simp add: MAX_DP_def)
qed

section \<open>Custom thresholds\<close>

text \<open>
  C2 at the input 1.299999999999 with 1 significant figure and threshold 3: the decision
  digit of the value is 2, below the threshold, and the default threshold returns \<open>1\<close>;
  but the digits are read from the value rendered at 11 significant figures, which the
  decimal library has already rounded to \<open>1.3000000000\<close>, so the code sees the digit 3 and
  rounds up to \<open>2\<close>.
\<close>

theorem round_custom_prerounded:
  "round_sf ''1.299999999999'' 1 5 = Inr ''1'' \<and> round_sf ''1.299999999999'' 1 3 = Inr ''2''"
proof -
  define x where "x = \<lparr>big_neg = False, big_c = [1, 2, 9, 9, 9, 9, 9, 9, 9, 9, 9, 9, 9], big_e = 0\<rparr>"
  define one where "one = \<lparr>big_neg = False, big_c = [1], big_e = 0\<rparr>"
  define two where "two = \<lparr>big_neg = False, big_c = [2], big_e = 0\<rparr>"
  have p: "parse ''1.299999999999'' = Inr x"
    by (simp add: x_def text_defs big_defs Let_def)
  have nz: "\<not> is_zero x" "\<not> big_neg x" "big_abs x = x" "big_e x = 0"
    by (simp_all add: x_def is_zero_def first_digit_def big_abs_def)
  have d: "toPrecision x 1 = Inr ''1''"
    by (simp add: x_def text_defs big_defs Let_def)
  have tp: "toPrecision x 11 = Inr ''1.3000000000''"
    by (simp add: x_def text_defs big_defs Let_def)
  have dm: "digit_match ''1.3000000000'' = None"
    by (simp add: digit_match_def text_defs Let_def)
  have cd: "check_digit (remove_dot ''1.3000000000'') (Suc 0) = Some 3"
    by (simp add: remove_dot_def check_digit_def text_defs)
  have pw: "big_pow (big_of_scaled 10 0) 0 = Inr one"
    by (simp add: one_def big_defs Let_def)
  have o: "big_of_scaled 1 0 = one"
    by (simp add: one_def big_defs Let_def)
  have fl: "big_floor (big_times x one) = 1"
    by (simp add: x_def one_def big_defs Let_def)
  have pl: "big_plus one one = two"
    by (simp add: one_def two_def big_defs Let_def)
  have dv: "big_div two one = Inr two"
    by (simp add: one_def two_def big_defs Let_def)
  have r: "toPrecision two 1 = Inr ''2''"
    by (simp add: two_def text_defs big_defs Let_def)
  have "round_sf ''1.299999999999'' 1 5 = Inr ''1''"
    by (simp add: round_sf_def validateSigfigs_def p nz d)
  moreover have "round_sf ''1.299999999999'' 1 3 = Inr ''2''"
    by (simp add: round_sf_def validateSigfigs_def Let_def p nz tp dm cd pw o fl pl dv r)
  ultimately show ?thesis by simp
qed

text \<open>
  For a value below 1 in positional notation the digits are read with the leading zeros of
  the rendering: at 0.00456 with 1 significant figure the digit after the last significant
  figure is 5, but the code reads a 0 and, at threshold 3, rounds down to \<open>0.004\<close>.
\<close>

lemma round_custom_leading_zeros:
  "round_sf ''0.00456'' 1 5 = Inr ''0.005'' \<and> round_sf ''0.00456'' 1 3 = Inr ''0.004''"
proof -
  define x where "x = \<lparr>big_neg = False, big_c = [4, 5, 6], big_e = - 3\<rparr>"
  define k where "k = \<lparr>big_neg = False, big_c = [1], big_e = 3\<rparr>"
  define four where "four = \<lparr>big_neg = False, big_c = [4], big_e = 0\<rparr>"
  define y where "y = \<lparr>big_neg = False, big_c = [4], big_e = - 3\<rparr>"
  have p: "parse ''0.00456'' = Inr x"
    by (simp add: x_def text_defs big_defs Let_def)
  have nz: "\<not> is_zero x" "\<not> big_neg x" "big_abs x = x" "big_e x = - 3"
    by (simp_all add: x_def is_zero_def first_digit_def big_abs_def)
  have d: "toPrecision x 1 = Inr ''0.005''"
    by (simp add: x_def text_defs big_defs Let_def)
  have tp: "toPrecision x 11 = Inr ''0.0045600000000''"
    by (simp add: x_def text_defs big_defs Let_def)
  have dm: "digit_match ''0.0045600000000'' = None"
    by (simp add: digit_match_def text_defs Let_def)
  have cd: "check_digit (remove_dot ''0.0045600000000'') (Suc 0) = Some 0"
    by (simp add: remove_dot_def check_digit_def text_defs)
  have pw: "big_pow (big_of_scaled 10 0) 3 = Inr k"
    by (simp add: k_def big_defs Let_def)
  have fl: "big_of_scaled (big_floor (big_times x k)) 0 = four"
    by (simp add: x_def k_def four_def big_defs Let_def)
  have dv: "big_div four k = Inr y"
    by (simp add: four_def k_def y_def big_defs Let_def)
  have r: "toPrecision y 1 = Inr ''0.004''"
    by (simp add: y_def text_defs big_defs Let_def)
  have "round_sf ''0.00456'' 1 5 = Inr ''0.005''"
    by (simp add: round_sf_def validateSigfigs_def p nz d)
  moreover have "round_sf ''0.00456'' 1 3 = Inr ''0.004''"
    by (simp add: round_sf_def validateSigfigs_def Let_def p nz tp dm cd pw fl dv r)
  ultimately show ?thesis by simp
qed

section \<open>Fixed-point rendering\<close>

lemma parse_well_formed: "parse s = Inr x \<Longrightarrow> well_formed x"
  using parse_cases [of s x] by (auto simp: well_formed_def big_zero_def)

lemma well_formed_digits: "well_formed x \<Longrightarrow> big_c x \<noteq> [] \<and> digits_ok (big_c x)"
  by (auto simp: well_formed_def normal_def digits_ok_def)

lemma round_for_fixed:
  fixes dp :: int
  assumes wf: "well_formed z" and dp: "0 \<le> dp"
  defines "y \<equiv> big_round z (dp + big_e z + 1)"
  shows "big_c y \<noteq> []" and "digits_ok (big_c y)"
    and "int (length (big_c y)) \<le> dp + big_e y + 1"
    and "big_neg y = big_neg z"
proof -
  let ?sd = "dp + big_e z + 1"
  have all: "big_c y \<noteq> [] \<and> digits_ok (big_c y)
             \<and> int (length (big_c y)) \<le> dp + big_e y + 1 \<and> big_neg y = big_neg z"
  proof (cases "?sd < 1")
    case True
    with dp show ?thesis by (auto simp: y_def big_round_def Let_def digits_ok_def)
  next
    case sd: False
    show ?thesis
    proof (cases "normal z")
      case True
      from sd have one: "1 \<le> ?sd" by simp
      note rn = round_normal [OF True one]
      have "big_e y = big_e z \<or> big_e y = big_e z + 1"
        using sd by (auto simp: y_def big_round_def Let_def split: prod.splits bool.splits)
      with rn sd show ?thesis by (auto simp: y_def normal_def)
    next
      case False
      with wf have z: "big_c z = [0]" "big_e z = 0" by (simp_all add: well_formed_def)
      with sd have "y = z" by (simp add: y_def big_round_def Let_def)
      with z dp show ?thesis by (simp add: digits_ok_def)
    qed
  qed
  then show "big_c y \<noteq> []" and "digits_ok (big_c y)"
    and "int (length (big_c y)) \<le> dp + big_e y + 1"
    and "big_neg y = big_neg z" by simp_all
qed

lemma stringify_fixed_shape:
  assumes ok: "digits_ok D" and ne: "D \<noteq> []" and len: "int (length D) = dp + e + 1"
    and dp: "0 \<le> dp"
  shows "\<exists>ip fp. all_digits ip \<and> ip \<noteq> [] \<and> all_digits fp \<and> int (length fp) = dp
          \<and> stringify \<lparr>big_neg = ng, big_c = D, big_e = e\<rparr> False nz
              = minus_sign (ng \<and> nz) @ ip @ (if 0 < dp then CHR ''.'' # fp else [])"
proof -
  let ?S = "map digit_char D"
  have S: "all_digits ?S" by (rule all_digits_map [OF ok])
  have z: "all_digits ''0''" by (simp add: is_digit_def)
  show ?thesis
  proof (cases "e < 0")
    case True
    from ne have "0 < int (length D)" by (cases D) simp_all
    with True len have pos: "0 < dp" by linarith
    have "stringify \<lparr>big_neg = ng, big_c = D, big_e = e\<rparr> False nz
            = minus_sign (ng \<and> nz) @ ''0'' @ (CHR ''.'' # (replicate (nat (- e - 1)) CHR ''0'' @ ?S))"
      using True by (simp add: stringify_def minus_sign_def Let_def)
    moreover have "int (length (replicate (nat (- e - 1)) CHR ''0'' @ ?S)) = dp"
      using True len by simp
    ultimately show ?thesis using pos S z
      by (intro exI [of _ "''0''"] exI [of _ "replicate (nat (- e - 1)) CHR ''0'' @ ?S"]) simp
  next
    case False
    show ?thesis
    proof (cases "0 < dp")
      case True
      have "stringify \<lparr>big_neg = ng, big_c = D, big_e = e\<rparr> False nz
              = minus_sign (ng \<and> nz) @ take (nat (e + 1)) ?S @ (CHR ''.'' # drop (nat (e + 1)) ?S)"
        using True False len by (auto simp: stringify_def minus_sign_def Let_def)
      moreover have "int (length (drop (nat (e + 1)) ?S)) = dp" using len False dp by auto
      moreover have "take (nat (e + 1)) ?S \<noteq> []" using len False True by auto
      ultimately show ?thesis using True S
        by (intro exI [of _ "take (nat (e + 1)) ?S"] exI [of _ "drop (nat (e + 1)) ?S"])
           (simp add: all_digits_take all_digits_drop)
    next
      case nodp: False
      with dp have dp0: "dp = 0" by simp
      have "stringify \<lparr>big_neg = ng, big_c = D, big_e = e\<rparr> False nz = minus_sign (ng \<and> nz) @ ?S"
        using False len dp0 by (auto simp: stringify_def minus_sign_def Let_def)
      moreover have "?S \<noteq> []" using len False dp0 by auto
      ultimately show ?thesis using S dp0
        by (intro exI [of _ ?S] exI [of _ "[]"]) simp
    qed
  qed
qed

lemma toFixed_shape:
  assumes wf: "well_formed z" and dp: "0 \<le> dp" and m: "dp \<le> MAX_DP"
  shows "\<exists>sg ip fp. all_digits ip \<and> ip \<noteq> [] \<and> all_digits fp \<and> int (length fp) = dp
          \<and> toFixed z dp = Inr (minus_sign sg @ ip @ (if 0 < dp then CHR ''.'' # fp else []))"
proof -
  let ?y = "big_round z (dp + big_e z + 1)"
  let ?n = "nat (dp + big_e ?y + 1)"
  note r = round_for_fixed [OF wf dp]
  note le = r(3)
  then have len: "int (length (pad (big_c ?y) ?n)) = dp + big_e ?y + 1"
    by (simp add: pad_def)
  have rec: "?y\<lparr>big_c := pad (big_c ?y) ?n\<rparr>
             = \<lparr>big_neg = big_neg ?y, big_c = pad (big_c ?y) ?n, big_e = big_e ?y\<rparr>"
    by (cases ?y) simp
  have pne: "pad (big_c ?y) ?n \<noteq> []" using r(1) by (simp add: pad_def)
  from stringify_fixed_shape [OF pad_digits_ok [OF r(2)] pne len dp,
      of "big_neg ?y" "first_digit (big_c z) \<noteq> 0"]
  obtain ip fp where "all_digits ip" "ip \<noteq> []" "all_digits fp" "int (length fp) = dp"
    and "stringify (?y\<lparr>big_c := pad (big_c ?y) ?n\<rparr>) False (first_digit (big_c z) \<noteq> 0)
         = minus_sign (big_neg ?y \<and> first_digit (big_c z) \<noteq> 0) @ ip
           @ (if 0 < dp then CHR ''.'' # fp else [])"
    unfolding rec by blast
  with dp m show ?thesis
    by (intro exI [of _ "big_neg ?y \<and> first_digit (big_c z) \<noteq> 0"] exI [of _ ip] exI [of _ fp])
       (simp add: toFixed_def Let_def)
qed

subsection \<open>Decimal texts are numbers for \<open>parseFloat\<close>\<close>

lemma takeWhile_digits_prefix:
  "all_digits ds \<Longrightarrow> ds \<noteq> [] \<Longrightarrow> takeWhile is_digit (ds @ r) \<noteq> []"
  by (cases ds) simp_all

lemma parseFloat_not_NaN:
  assumes "all_digits ip" and "all_digits fp" and "ip \<noteq> [] \<or> (fp \<noteq> [] \<and> dot)"
  shows "parseFloat (minus_sign ng @ ip @ (if dot then CHR ''.'' # fp @ r else r')) \<noteq> NaN"
proof -
  let ?u = "ip @ (if dot then CHR ''.'' # fp @ r else r')"
  let ?t = "minus_sign ng @ ?u"
  have une: "?u \<noteq> []" using assms(3) by auto
  have hdu: "is_digit (hd ?u) \<or> hd ?u = CHR ''.''"
    using assms by (cases ip) auto
  then have nws: "\<not> is_ws (hd ?u)" and nsg: "\<not> is_sign (hd ?u)"
    using is_digit_not_special(3,4) [of "hd ?u"] by (auto simp: is_ws_def is_sign_def)
  have dw: "dropWhile is_ws ?t = ?t"
    using une nws by (cases ?u) (auto simp: minus_sign_def is_ws_def)
  have ss: "strip_sign ?t = ?u"
    using une nsg by (cases ?u) (auto simp: minus_sign_def strip_sign_def is_sign_def)
  have inf: "\<not> starts_with ''Infinity'' ?u"
    using une hdu by (cases ?u) (auto simp: starts_with_def is_digit_def)
  show ?thesis
  proof (cases "ip = []")
    case False
    then have "takeWhile is_digit ?u \<noteq> []"
      using assms(1) by (cases ip) simp_all
    then show ?thesis
      unfolding parseFloat_def Let_def dw ss using inf by simp
  next
    case True
    with assms(3) have d: dot and f: "fp \<noteq> []" by simp_all
    have u: "?u = CHR ''.'' # fp @ r" using True d by simp
    have tw: "takeWhile is_digit (fp @ r) \<noteq> []"
      by (rule takeWhile_digits_prefix [OF assms(2) f])
    have dw': "dropWhile is_ws (minus_sign ng @ CHR ''.'' # fp @ r) = minus_sign ng @ CHR ''.'' # fp @ r"
      and ss': "strip_sign (minus_sign ng @ CHR ''.'' # fp @ r) = CHR ''.'' # fp @ r"
      using dw ss by (simp_all only: u)
    have "parseFloat (minus_sign ng @ CHR ''.'' # fp @ r) \<noteq> NaN"
      unfolding parseFloat_def Let_def dw' ss' using tw
      by (simp add: starts_with_def is_digit_def)
    then show ?thesis unfolding u .
  qed
qed

lemma digitsAfterDecimal_fixed:
  assumes "all_digits ip" and "ip \<noteq> []" and "all_digits fp" and "int (length fp) = dp"
  shows "digitsAfterDecimal (minus_sign ng @ ip @ (if 0 < dp then CHR ''.'' # fp else [])) = Inr dp"
proof -
  let ?t = "minus_sign ng @ ip @ (if 0 < dp then CHR ''.'' # fp else [])"
  from parseFloat_not_NaN [OF assms(1,3), of "0 < dp" ng "[]" "[]"] assms(2)
  have nn: "parseFloat ?t \<noteq> NaN" by (cases "0 < dp") simp_all
  have ne: "\<not> list_ex is_exp_char ?t"
    using all_digits_no(2) [OF assms(1)] all_digits_no(2) [OF assms(3)]
    by (simp add: minus_sign_def is_exp_char_def)
  have nd: "\<not> list_ex is_dot (minus_sign ng @ ip)"
    using all_digits_no(1) [OF assms(1)] by (simp add: minus_sign_def is_dot_def)
  show ?thesis
  proof (cases "0 < dp")
    case True
    have "after is_dot ((minus_sign ng @ ip) @ CHR ''.'' # fp) = fp"
      by (rule after_split [OF nd]) (simp add: is_dot_def)
    with True nn ne assms(4) show ?thesis
      by (simp add: digitsAfterDecimal_def is_dot_def)
  next
    case False
    with assms(4) have "dp = 0" by simp
    with False nn ne nd show ?thesis
      by (simp add: digitsAfterDecimal_def)
  qed
qed

lemma split_at_first:
  "list_ex p s \<Longrightarrow> \<exists>ch. p ch \<and> s = before p s @ ch # after p s"
  by (induction s) (auto simp: before_def after_def)

lemma NUMERIC_parseFloat:
  assumes "NUMERIC s"
  shows "parseFloat s \<noteq> NaN"
proof -
  let ?body = "strip_minus s"
  let ?m = "before is_exp_char ?body"
  let ?rest = "dropWhile (\<lambda>ch. \<not> is_exp_char ch) ?body"
  from assms have nm: "numeric_mantissa ?m" by (simp add: NUMERIC_def Let_def)
  have body: "?body = ?m @ ?rest" by (simp add: before_def)
  have mne: "?m \<noteq> []" using nm by (auto simp: numeric_mantissa_def split: if_splits)
  then have bne: "?body \<noteq> []" using body by auto
  have s: "s = minus_sign (has_minus s) @ ?body"
    using bne by (cases s) (auto simp: minus_sign_def has_minus_def strip_minus_def)
  show ?thesis
  proof (cases "list_ex is_dot ?m")
    case True
    let ?ip = "before is_dot ?m" and ?fp = "after is_dot ?m"
    from True nm have d: "all_digits ?ip" "all_digits ?fp" "?ip \<noteq> [] \<or> ?fp \<noteq> []"
      by (simp_all add: numeric_mantissa_def)
    from split_at_first [OF True] have m: "?m = ?ip @ CHR ''.'' # ?fp"
      by (auto simp: is_dot_def)
    have "parseFloat (minus_sign (has_minus s) @ ?ip @ (if True then CHR ''.'' # ?fp @ ?rest else []))
            \<noteq> NaN"
      by (rule parseFloat_not_NaN [OF d(1,2)]) (use d(3) in auto)
    moreover have "s = minus_sign (has_minus s) @ ?ip @ (if True then CHR ''.'' # ?fp @ ?rest else [])"
      using s body m by (metis append.assoc append_Cons)
    ultimately show ?thesis by metis
  next
    case False
    with nm have d: "all_digits ?m" "?m \<noteq> []" by (simp_all add: numeric_mantissa_def)
    have "parseFloat (minus_sign (has_minus s) @ ?m @ (if False then CHR ''.'' # [] @ [] else ?rest))
            \<noteq> NaN"
      by (rule parseFloat_not_NaN [OF d(1)]) (use d(2) in simp_all)
    moreover have "s = minus_sign (has_minus s) @ ?m @ (if False then CHR ''.'' # [] @ [] else ?rest)"
      using s body by simp
    ultimately show ?thesis by metis
  qed
qed

lemma digitsAfterDecimal_returns:
  assumes "parse s = Inr x"
  shows "\<exists>d. digitsAfterDecimal s = Inr d \<and> 0 \<le> d"
proof -
  from assms have "NUMERIC s" by (simp add: parse_def split: if_splits)
  then have "parseFloat s \<noteq> NaN" by (rule NUMERIC_parseFloat)
  then show ?thesis
    by (auto simp: digitsAfterDecimal_def Let_def split: option.splits)
qed

section \<open>Exact sums and differences\<close>

lemma nat_digits_hd: "0 < n \<Longrightarrow> hd (nat_digits n) \<noteq> 0"
proof (induction n rule: nat_digits.induct)
  case (1 n)
  show ?case
  proof (cases "n < 10")
    case True
    with "1.prems" show ?thesis by (subst nat_digits.simps) simp
  next
    case False
    then have "0 < n div 10" by simp
    with False 1 have "hd (nat_digits (n div 10)) \<noteq> 0" by simp
    with False nat_digits_props [of "n div 10"] show ?thesis
      by (subst nat_digits.simps) simp
  qed
qed

lemma big_of_scaled_well_formed: "well_formed (big_of_scaled m k)"
proof (cases "m = 0")
  case True
  then show ?thesis by (simp add: big_of_scaled_def well_formed_def big_zero_def)
next
  case False
  let ?ds = "nat_digits (nat \<bar>m\<bar>)"
  from False have "0 < nat \<bar>m\<bar>" by simp
  from nat_digits_hd [OF this] nat_digits_props [of "nat \<bar>m\<bar>"]
  have "?ds \<noteq> []" "hd ?ds \<noteq> 0" "digits_ok ?ds" by simp_all
  note h = this
  from strip0_normal [OF h] h False show ?thesis
    by (simp add: big_of_scaled_def well_formed_def normal_def Let_def)
qed

lemma digits_nat_snoc: "digits_nat (xs @ [d]) = 10 * digits_nat xs + d"
  by (simp add: digits_nat_def)

lemma digits_nat_zeros: "digits_nat (xs @ replicate j 0) = digits_nat xs * 10 ^ j"
proof (induction j)
  case 0
  then show ?case by simp
next
  case (Suc j)
  have "xs @ replicate (Suc j) 0 = (xs @ replicate j 0) @ [0]"
    by (simp add: replicate_append_same)
  then show ?case using Suc by (simp only: digits_nat_snoc) simp
qed

lemma takeWhile_zeros: "takeWhile (\<lambda>d::nat. d = 0) xs = replicate (length (takeWhile (\<lambda>d. d = 0) xs)) 0"
  by (induction xs) simp_all

lemma strip0_decompose: "\<exists>j. ds = strip0 ds @ replicate j 0"
proof -
  let ?P = "\<lambda>d::nat. d = 0"
  let ?j = "length (takeWhile ?P (rev ds))"
  have "rev ds = takeWhile ?P (rev ds) @ dropWhile ?P (rev ds)" by simp
  then have "rev (rev ds) = rev (takeWhile ?P (rev ds) @ dropWhile ?P (rev ds))"
    by (rule arg_cong)
  then have "ds = rev (dropWhile ?P (rev ds)) @ rev (takeWhile ?P (rev ds))"
    by (simp only: rev_append rev_rev_ident)
  moreover have "rev (takeWhile ?P (rev ds)) = replicate ?j 0"
    by (subst takeWhile_zeros) (simp only: rev_replicate)
  ultimately have "ds = strip0 ds @ replicate ?j 0"
    unfolding strip0_def by simp
  then show ?thesis ..
qed

lemma big_val_of_scaled: "big_val (big_of_scaled m k) = of_int m * 10 powi k"
proof (cases "m = 0")
  case True
  then show ?thesis
    by (simp add: big_of_scaled_def big_val_def big_zero_def big_mant_def digits_nat_def)
next
  case False
  let ?ds = "nat_digits (nat \<bar>m\<bar>)"
  obtain j where j: "?ds = strip0 ?ds @ replicate j 0" using strip0_decompose by blast
  then have len: "length ?ds = length (strip0 ?ds) + j"
    by (metis length_append length_replicate)
  have "digits_nat ?ds = digits_nat (strip0 ?ds) * 10 ^ j"
    using digits_nat_zeros [of "strip0 ?ds" j] j by simp
  with nat_digits_props [of "nat \<bar>m\<bar>"] have v: "nat \<bar>m\<bar> = digits_nat (strip0 ?ds) * 10 ^ j"
    by simp
  have sc: "big_scale (big_of_scaled m k) = k + int j"
    using False len by (simp add: big_of_scaled_def big_scale_def Let_def)
  have mant: "big_mant (big_of_scaled m k) * 10 ^ j = m"
  proof -
    have "\<bar>m\<bar> = int (digits_nat (strip0 ?ds) * 10 ^ j)" using v by linarith
    then show ?thesis
      using False by (cases "m < 0") (simp_all add: big_of_scaled_def big_mant_def Let_def)
  qed
  have "big_val (big_of_scaled m k) = of_int (big_mant (big_of_scaled m k)) * 10 powi (k + int j)"
    by (simp add: big_val_def sc)
  also have "\<dots> = of_int (big_mant (big_of_scaled m k)) * (10 ^ j * 10 powi k)"
    by (simp add: power_int_add mult.commute)
  also have "\<dots> = of_int (big_mant (big_of_scaled m k) * 10 ^ j) * 10 powi k"
    by simp
  finally show ?thesis by (simp only: mant)
qed

lemma aligned_val: "k \<le> big_scale x \<Longrightarrow> of_int (aligned x k) * 10 powi k = big_val x"
proof -
  assume "k \<le> big_scale x"
  then have "big_scale x = int (nat (big_scale x - k)) + k" by simp
  then have "(10::rat) powi big_scale x = 10 ^ nat (big_scale x - k) * 10 powi k"
    by (metis power_int_add power_int_of_nat zero_neq_numeral)
  then show ?thesis by (simp add: aligned_def big_val_def)
qed

lemma big_val_plus: "big_val (big_plus x y) = big_val x + big_val y"
proof -
  let ?k = "min (big_scale x) (big_scale y)"
  have "big_val (big_plus x y) = of_int (aligned x ?k + aligned y ?k) * 10 powi ?k"
    by (simp add: big_plus_def Let_def big_val_of_scaled)
  also have "\<dots> = of_int (aligned x ?k) * 10 powi ?k + of_int (aligned y ?k) * 10 powi ?k"
    by (simp add: algebra_simps)
  finally show ?thesis by (simp add: aligned_val)
qed

lemma big_val_minus: "big_val (big_minus x y) = big_val x - big_val y"
proof -
  let ?k = "min (big_scale x) (big_scale y)"
  have "big_val (big_minus x y) = of_int (aligned x ?k - aligned y ?k) * 10 powi ?k"
    by (simp add: big_minus_def Let_def big_val_of_scaled)
  also have "\<dots> = of_int (aligned x ?k) * 10 powi ?k - of_int (aligned y ?k) * 10 powi ?k"
    by (simp add: algebra_simps)
  finally show ?thesis by (simp add: aligned_val)
qed

lemma big_gt_val: "big_gt x y = (big_val y < big_val x)"
proof -
  let ?k = "min (big_scale x) (big_scale y)"
  have pos: "(0::rat) < 10 powi ?k" by (rule zero_less_power_int) simp
  have "(big_val y < big_val x)
        = (of_int (aligned y ?k) * 10 powi ?k < (of_int (aligned x ?k) * 10 powi ?k :: rat))"
    by (simp add: aligned_val)
  also have "\<dots> = (aligned y ?k < aligned x ?k)"
    using pos by (simp only: mult_less_cancel_right_pos of_int_less_iff)
  finally show ?thesis by (simp add: big_gt_def Let_def)
qed

lemma big_lt_val: "big_lt x y = (big_val x < big_val y)"
proof -
  let ?k = "min (big_scale x) (big_scale y)"
  have pos: "(0::rat) < 10 powi ?k" by (rule zero_less_power_int) simp
  have "(big_val x < big_val y)
        = (of_int (aligned x ?k) * 10 powi ?k < (of_int (aligned y ?k) * 10 powi ?k :: rat))"
    by (simp add: aligned_val)
  also have "\<dots> = (aligned x ?k < aligned y ?k)"
    using pos by (simp only: mult_less_cancel_right_pos of_int_less_iff)
  finally show ?thesis by (simp add: big_lt_def Let_def)
qed

section \<open>Maximum and minimum\<close>

subsection \<open>The text of a value parses back to it\<close>

lemma toString_layout:
  assumes "normal x"
  shows "toString x = minus_sign (big_neg x)
           @ layout (map digit_char (if NE < big_e x \<and> big_e x < PE
                                     then pad (big_c x) (nat (big_e x + 1)) else big_c x))
               (big_e x)"
proof -
  from assms obtain d ds where c: "big_c x = d # ds" and d: "d \<noteq> 0"
    by (cases "big_c x") (simp_all add: normal_def)
  have z: "digit_char 0 = CHR ''0''" by (simp add: digit_char_def)
  show ?thesis
  proof (cases "NE < big_e x \<and> big_e x < PE")
    case True
    then show ?thesis using d
      by (auto simp: toString_def stringify_def layout_def minus_sign_def Let_def pad_def
          NE_def PE_def c first_digit_def z) (cases ds; simp)
  next
    case False
    then show ?thesis using d
      by (auto simp: toString_def stringify_def layout_def minus_sign_def Let_def int_str_def
          c first_digit_def NE_def PE_def)
  qed
qed

lemma toString_reparse:
  assumes "normal x"
  shows "parse (toString x) = Inr x"
proof -
  let ?D = "if NE < big_e x \<and> big_e x < PE then pad (big_c x) (nat (big_e x + 1)) else big_c x"
  from assms have c: "big_c x \<noteq> []" "digits_ok (big_c x)" "hd (big_c x) \<noteq> 0" "last (big_c x) \<noteq> 0"
    by (simp_all add: normal_def)
  note pd = padded_digits [OF assms, of "nat (big_e x + 1)"]
  have ok: "digits_ok ?D" using pd(1) c(2) by simp
  have ne: "?D \<noteq> []" using pd(2) c(1) by simp
  have hd: "hd ?D \<noteq> 0" using pd(3) c(3) by simp
  have st: "strip0 ?D = big_c x" using pd(4) strip0_id [OF c(1,4)] by simp
  have "parse (toString x) = Inr \<lparr>big_neg = big_neg x, big_c = strip0 ?D, big_e = big_e x\<rparr>"
    unfolding toString_layout [OF assms] by (rule parse_layout [OF ok ne hd])
  then show ?thesis by (simp add: st)
qed

lemma toString_zero:
  assumes "big_c x = [0]" and "big_e x = 0"
  shows "toString x = ''0''"
  using assms
  by (simp add: toString_def stringify_def first_digit_def Let_def NE_def PE_def digit_char_def)

lemma parse_zero_text: "parse ''0'' = Inr (big_zero False)"
  by (simp add: text_defs big_defs Let_def)

lemma toSigfig_toString:
  assumes wf: "well_formed m" and n: "1 \<le> n"
  shows "toSigfig (toString m) n = (if is_zero m then Inr ''0'' else toPrecision m n)"
proof (cases "normal m")
  case True
  with n show ?thesis
    by (simp add: toSigfig_def validateSigfigs_def toString_reparse normal_not_zero)
next
  case False
  with wf have z: "big_c m = [0]" "big_e m = 0" by (simp_all add: well_formed_def)
  then have "is_zero m" by (simp add: is_zero_def first_digit_def)
  with n show ?thesis
    by (simp add: toSigfig_def validateSigfigs_def toString_zero [OF z] parse_zero_text
        big_zero_is_zero)
qed

subsection \<open>Filtering and selection\<close>

lemma valid_pairs_set:
  "set (valid_pairs vs) = {(s, x). Some s \<in> set vs \<and> parse s = Inr x}"
proof (induction vs)
  case Nil
  show ?case by simp
next
  case (Cons v vs)
  show ?case
  proof (cases v)
    case None
    with Cons show ?thesis by auto
  next
    case (Some s)
    show ?thesis
    proof (cases "parse s")
      case (Inl err)
      with Some Cons show ?thesis by auto
    next
      case (Inr x)
      with Some Cons show ?thesis by auto
    qed
  qed
qed

lemma valid_pairs_well_formed: "pair \<in> set (valid_pairs vs) \<Longrightarrow> well_formed (snd pair)"
  by (cases pair) (auto simp: valid_pairs_set dest: parse_well_formed)

lemma max_loop_mem: "max_loop m ps \<in> insert m (snd ` set ps)"
  by (induction ps arbitrary: m) auto

lemma max_loop_ge: "big_val m \<le> big_val (max_loop m ps)"
proof (induction ps arbitrary: m)
  case Nil
  show ?case by simp
next
  case (Cons p ps)
  let ?m = "if big_gt (snd p) m then snd p else m"
  have "big_val m \<le> big_val ?m" by (simp add: big_gt_val)
  also have "\<dots> \<le> big_val (max_loop ?m ps)" by (rule Cons.IH)
  finally show ?case by simp
qed

lemma max_loop_upper: "p \<in> set ps \<Longrightarrow> big_val (snd p) \<le> big_val (max_loop m ps)"
proof (induction ps arbitrary: m)
  case Nil
  then show ?case by simp
next
  case (Cons q ps)
  let ?m = "if big_gt (snd q) m then snd q else m"
  show ?case
  proof (cases "p = q")
    case True
    have "big_val (snd q) \<le> big_val ?m" by (simp add: big_gt_val)
    also have "\<dots> \<le> big_val (max_loop ?m ps)" by (rule max_loop_ge)
    finally show ?thesis using True by simp
  next
    case False
    with Cons.prems have "p \<in> set ps" by simp
    from Cons.IH [OF this] show ?thesis by simp
  qed
qed

lemma min_loop_mem: "min_loop m ps \<in> insert m (snd ` set ps)"
  by (induction ps arbitrary: m) auto

lemma min_loop_le: "big_val (min_loop m ps) \<le> big_val m"
proof (induction ps arbitrary: m)
  case Nil
  show ?case by simp
next
  case (Cons p ps)
  let ?m = "if big_lt (snd p) m then snd p else m"
  have "big_val (min_loop ?m ps) \<le> big_val ?m" by (rule Cons.IH)
  also have "\<dots> \<le> big_val m" by (simp add: big_lt_val)
  finally show ?case by simp
qed

lemma min_loop_lower: "p \<in> set ps \<Longrightarrow> big_val (min_loop m ps) \<le> big_val (snd p)"
proof (induction ps arbitrary: m)
  case Nil
  then show ?case by simp
next
  case (Cons q ps)
  let ?m = "if big_lt (snd q) m then snd q else m"
  show ?case
  proof (cases "p = q")
    case True
    have "big_val (min_loop ?m ps) \<le> big_val ?m" by (rule min_loop_le)
    also have "\<dots> \<le> big_val (snd q)" by (simp add: big_lt_val)
    finally show ?thesis using True by simp
  next
    case False
    with Cons.prems have "p \<in> set ps" by simp
    from Cons.IH [OF this] show ?thesis by simp
  qed
qed

lemma math_min_Min: "ns \<noteq> [] \<Longrightarrow> math_min ns = Some (Min (set ns))"
proof (induction ns)
  case Nil
  then show ?case by simp
next
  case (Cons n ns)
  show ?case
  proof (cases "ns = []")
    case True
    then show ?thesis by simp
  next
    case False
    with Cons have "math_min ns = Some (Min (set ns))" by simp
    with False show ?thesis by (simp add: Min_insert)
  qed
qed

lemma compare_sigfigs_Min:
  assumes "pairs \<noteq> []"
  shows "compare_sigfigs pairs = Some (Min (set (map (\<lambda>pair. sigfigOf (fst pair)) pairs)))"
    and "1 \<le> Min (set (map (\<lambda>pair. sigfigOf (fst pair)) pairs))"
proof -
  from assms have ne: "map (\<lambda>pair. sigfigOf (fst pair)) pairs \<noteq> []" by simp
  show "compare_sigfigs pairs = Some (Min (set (map (\<lambda>pair. sigfigOf (fst pair)) pairs)))"
    unfolding compare_sigfigs_def by (rule math_min_Min [OF ne])
  from ne have "Min (set (map (\<lambda>pair. sigfigOf (fst pair)) pairs))
                  \<in> set (map (\<lambda>pair. sigfigOf (fst pair)) pairs)"
    by (intro Min_in) simp_all
  then show "1 \<le> Min (set (map (\<lambda>pair. sigfigOf (fst pair)) pairs))"
    using sigfigOf_total by auto
qed

lemma max_sf_selected:
  assumes v: "validate_optional sigfigs = Inr ()" and ne: "valid_pairs vs \<noteq> []"
  shows "\<exists>m \<in> snd ` set (valid_pairs vs).
           (\<forall>x \<in> snd ` set (valid_pairs vs). big_val x \<le> big_val m)
           \<and> max_sf (Array vs) sigfigs
               = (if is_zero m then Inr ''0''
                  else toPrecision m
                         (case sigfigs of Some n \<Rightarrow> n
                          | None \<Rightarrow> int (Min (set (map (\<lambda>pair. sigfigOf (fst pair))
                                                       (valid_pairs vs))))))"
proof -
  from ne obtain pair pairs where ps: "valid_pairs vs = pair # pairs"
    by (cases "valid_pairs vs") simp_all
  let ?m = "max_loop (snd pair) pairs"
  let ?p = "case sigfigs of Some n \<Rightarrow> n
            | None \<Rightarrow> int (Min (set (map (\<lambda>pair. sigfigOf (fst pair)) (valid_pairs vs))))"
  have mem: "?m \<in> snd ` set (valid_pairs vs)"
    using max_loop_mem [of "snd pair" pairs] by (auto simp: ps)
  then obtain q where q: "q \<in> set (valid_pairs vs)" "?m = snd q" by auto
  have wf: "well_formed ?m" unfolding q(2) by (rule valid_pairs_well_formed [OF q(1)])
  have up: "\<forall>x \<in> snd ` set (valid_pairs vs). big_val x \<le> big_val ?m"
    using max_loop_ge [of "snd pair" pairs] max_loop_upper [of _ pairs "snd pair"]
    by (auto simp: ps)
  note cm = compare_sigfigs_Min [OF ne]
  have p1: "1 \<le> ?p"
  proof (cases sigfigs)
    case None
    with cm(2) show ?thesis by simp
  next
    case (Some n)
    with v show ?thesis
      by (simp add: validate_optional_def validateSigfigs_def split: if_splits)
  qed
  have "max_sf (Array vs) sigfigs = toSigfig (toString ?m) ?p"
  proof (cases sigfigs)
    case None
    then show ?thesis
      using cm(1) by (simp add: max_sf_def validate_optional_def ps toSigfig_min_def)
  next
    case (Some n)
    with v show ?thesis
      by (simp add: max_sf_def ps)
  qed
  also have "\<dots> = (if is_zero ?m then Inr ''0'' else toPrecision ?m ?p)"
    by (rule toSigfig_toString [OF wf p1])
  finally show ?thesis using mem up by blast
qed

lemma min_sf_selected:
  assumes v: "validate_optional sigfigs = Inr ()" and ne: "valid_pairs vs \<noteq> []"
  shows "\<exists>m \<in> snd ` set (valid_pairs vs).
           (\<forall>x \<in> snd ` set (valid_pairs vs). big_val m \<le> big_val x)
           \<and> min_sf (Array vs) sigfigs
               = (if is_zero m then Inr ''0''
                  else toPrecision m
                         (case sigfigs of Some n \<Rightarrow> n
                          | None \<Rightarrow> int (Min (set (map (\<lambda>pair. sigfigOf (fst pair))
                                                       (valid_pairs vs))))))"
proof -
  from ne obtain pair pairs where ps: "valid_pairs vs = pair # pairs"
    by (cases "valid_pairs vs") simp_all
  let ?m = "min_loop (snd pair) pairs"
  let ?p = "case sigfigs of Some n \<Rightarrow> n
            | None \<Rightarrow> int (Min (set (map (\<lambda>pair. sigfigOf (fst pair)) (valid_pairs vs))))"
  have mem: "?m \<in> snd ` set (valid_pairs vs)"
    using min_loop_mem [of "snd pair" pairs] by (auto simp: ps)
  then obtain q where q: "q \<in> set (valid_pairs vs)" "?m = snd q" by auto
  have wf: "well_formed ?m" unfolding q(2) by (rule valid_pairs_well_formed [OF q(1)])
  have up: "\<forall>x \<in> snd ` set (valid_pairs vs). big_val ?m \<le> big_val x"
    using min_loop_le [of "snd pair" pairs] min_loop_lower [of _ pairs "snd pair"]
    by (auto simp: ps)
  note cm = compare_sigfigs_Min [OF ne]
  have p1: "1 \<le> ?p"
  proof (cases sigfigs)
    case None
    with cm(2) show ?thesis by simp
  next
    case (Some n)
    with v show ?thesis
      by (simp add: validate_optional_def validateSigfigs_def split: if_splits)
  qed
  have "min_sf (Array vs) sigfigs = toSigfig (toString ?m) ?p"
  proof (cases sigfigs)
    case None
    then show ?thesis
      using cm(1) by (simp add: min_sf_def validate_optional_def ps toSigfig_min_def)
  next
    case (Some n)
    with v show ?thesis
      by (simp add: min_sf_def ps)
  qed
  also have "\<dots> = (if is_zero ?m then Inr ''0'' else toPrecision ?m ?p)"
    by (rule toSigfig_toString [OF wf p1])
  finally show ?thesis using mem up by blast
qed

text \<open>
  C6.  With a valid (or absent) number of significant figures, \<open>max\<close> and \<open>min\<close> raise the
  not-an-array error on an argument that is not an array.  On an array, the surviving elements
  are exactly those that are not \<open>null\<close>/\<open>undefined\<close> and whose text parses (so \<open>NaN\<close>,
  \<open>Infinity\<close> and other unparsable elements are skipped), each paired with its parsed value;
  when none survives, the no-valid-numbers error is raised.  Otherwise the value selected is a
  surviving value that no surviving value exceeds (for \<open>min\<close>: that exceeds none), compared
  as exact decimals; the result is \<open>"0"\<close> when that value is zero and otherwise that value
  itself rendered by \<open>toPrecision\<close> at the explicit count or, by default, at the least
  \<open>sigfigOf\<close> of the surviving original texts.
\<close>

theorem max_min_selection:
  assumes "validate_optional sigfigs = Inr ()"
  shows "max_sf NotAnArray sigfigs = Inl NOT_AN_ARRAY
       \<and> min_sf NotAnArray sigfigs = Inl NOT_AN_ARRAY
       \<and> set (valid_pairs vs) = {(s, x). Some s \<in> set vs \<and> parse s = Inr x}
       \<and> (valid_pairs vs = [] \<longrightarrow>
            max_sf (Array vs) sigfigs = Inl NO_VALID_NUMBERS
            \<and> min_sf (Array vs) sigfigs = Inl NO_VALID_NUMBERS)
       \<and> (valid_pairs vs \<noteq> [] \<longrightarrow>
            (\<exists>m \<in> snd ` set (valid_pairs vs).
               (\<forall>x \<in> snd ` set (valid_pairs vs). big_val x \<le> big_val m)
               \<and> max_sf (Array vs) sigfigs
                   = (if is_zero m then Inr ''0''
                      else toPrecision m
                             (case sigfigs of Some n \<Rightarrow> n
                              | None \<Rightarrow> int (Min (set (map (\<lambda>pair. sigfigOf (fst pair))
                                                           (valid_pairs vs)))))))
            \<and> (\<exists>m \<in> snd ` set (valid_pairs vs).
               (\<forall>x \<in> snd ` set (valid_pairs vs). big_val m \<le> big_val x)
               \<and> min_sf (Array vs) sigfigs
                   = (if is_zero m then Inr ''0''
                      else toPrecision m
                             (case sigfigs of Some n \<Rightarrow> n
                              | None \<Rightarrow> int (Min (set (map (\<lambda>pair. sigfigOf (fst pair))
                                                           (valid_pairs vs))))))))"
proof -
  from assms have a: "max_sf NotAnArray sigfigs = Inl NOT_AN_ARRAY"
    and b: "min_sf NotAnArray sigfigs = Inl NOT_AN_ARRAY"
    by (simp_all add: max_sf_def min_sf_def)
  from assms have c: "valid_pairs vs = [] \<longrightarrow>
            max_sf (Array vs) sigfigs = Inl NO_VALID_NUMBERS
            \<and> min_sf (Array vs) sigfigs = Inl NO_VALID_NUMBERS"
    by (simp add: max_sf_def min_sf_def)
  note vp = valid_pairs_set [of vs]
  have d: "valid_pairs vs \<noteq> [] \<longrightarrow>
            (\<exists>m \<in> snd ` set (valid_pairs vs).
               (\<forall>x \<in> snd ` set (valid_pairs vs). big_val x \<le> big_val m)
               \<and> max_sf (Array vs) sigfigs
                   = (if is_zero m then Inr ''0''
                      else toPrecision m
                             (case sigfigs of Some n \<Rightarrow> n
                              | None \<Rightarrow> int (Min (set (map (\<lambda>pair. sigfigOf (fst pair))
                                                           (valid_pairs vs)))))))
            \<and> (\<exists>m \<in> snd ` set (valid_pairs vs).
               (\<forall>x \<in> snd ` set (valid_pairs vs). big_val m \<le> big_val x)
               \<and> min_sf (Array vs) sigfigs
                   = (if is_zero m then Inr ''0''
                      else toPrecision m
                             (case sigfigs of Some n \<Rightarrow> n
                              | None \<Rightarrow> int (Min (set (map (\<lambda>pair. sigfigOf (fst pair))
                                                           (valid_pairs vs)))))))"
  proof (intro impI conjI)
    assume ne: "valid_pairs vs \<noteq> []"
    show "\<exists>m \<in> snd ` set (valid_pairs vs).
               (\<forall>x \<in> snd ` set (valid_pairs vs). big_val x \<le> big_val m)
               \<and> max_sf (Array vs) sigfigs
                   = (if is_zero m then Inr ''0''
                      else toPrecision m
                             (case sigfigs of Some n \<Rightarrow> n
                              | None \<Rightarrow> int (Min (set (map (\<lambda>pair. sigfigOf (fst pair))
                                                           (valid_pairs vs))))))"
      by (rule max_sf_selected [OF assms ne])
    show "\<exists>m \<in> snd ` set (valid_pairs vs).
               (\<forall>x \<in> snd ` set (valid_pairs vs). big_val m \<le> big_val x)
               \<and> min_sf (Array vs) sigfigs
                   = (if is_zero m then Inr ''0''
                      else toPrecision m
                             (case sigfigs of Some n \<Rightarrow> n
                              | None \<Rightarrow> int (Min (set (map (\<lambda>pair. sigfigOf (fst pair))
                                                           (valid_pairs vs))))))"
      by (rule min_sf_selected [OF assms ne])
  qed
  show ?thesis by (rule conjI [OF a conjI [OF b conjI [OF vp conjI [OF c d]]]])
qed

text \<open>
  The theorem at \<open>max([1, "invalid", 3])\<close>, at an array with \<open>null\<close>, \<open>NaN\<close> and
  \<open>Infinity\<close>, at \<open>max([])\<close>, and at \<open>max([1.234, 1.235], 3)\<close>, where both candidates would
  round to the same text.
\<close>

theorem max_min_selection_witness:
  "validate_optional None = Inr () \<and> validate_optional (Some 3) = Inr ()
   \<and> valid_pairs [Some ''1'', Some ''invalid'', Some ''3'']
       = [(''1'', \<lparr>big_neg = False, big_c = [1], big_e = 0\<rparr>),
          (''3'', \<lparr>big_neg = False, big_c = [3], big_e = 0\<rparr>)]
   \<and> max_sf (Array [Some ''1'', Some ''invalid'', Some ''3'']) None = Inr ''3''
   \<and> min_sf (Array [Some ''1'', Some ''invalid'', Some ''3'']) None = Inr ''1''
   \<and> valid_pairs [None, Some ''NaN'', Some ''Infinity''] = []
   \<and> max_sf (Array [None, Some ''NaN'', Some ''Infinity'']) None = Inl NO_VALID_NUMBERS
   \<and> max_sf (Array []) None = Inl NO_VALID_NUMBERS
   \<and> min_sf (Array []) None = Inl NO_VALID_NUMBERS
   \<and> max_sf NotAnArray None = Inl NOT_AN_ARRAY
   \<and> max_sf (Array [Some ''1.234'', Some ''1.235'']) (Some 3) = Inr ''1.24''
   \<and> min_sf (Array [Some ''1.234'', Some ''1.235'']) (Some 3) = Inr ''1.23''"
proof -
  have v: "validate_optional None = Inr ()" by (simp add: validate_optional_def)
  have w: "validate_optional (Some 3) = Inr ()"
    by (simp add: validate_optional_def validateSigfigs_def)
  have p1: "valid_pairs [Some ''1'', Some ''invalid'', Some ''3'']
       = [(''1'', \<lparr>big_neg = False, big_c = [1], big_e = 0\<rparr>),
          (''3'', \<lparr>big_neg = False, big_c = [3], big_e = 0\<rparr>)]"
    by (simp add: text_defs big_defs Let_def)
  have p2: "valid_pairs [None, Some ''NaN'', Some ''Infinity''] = []"
    by (simp add: text_defs big_defs Let_def)
  have a: "max_sf (Array [Some ''1'', Some ''invalid'', Some ''3'']) None = Inr ''3''"
    by (simp add: all_defs)
  have b: "min_sf (Array [Some ''1'', Some ''invalid'', Some ''3'']) None = Inr ''1''"
    by (simp add: all_defs)
  have c: "max_sf (Array [Some ''1.234'', Some ''1.235'']) (Some 3) = Inr ''1.24''"
    by (simp add: all_defs)
  have d: "min_sf (Array [Some ''1.234'', Some ''1.235'']) (Some 3) = Inr ''1.23''"
    by (simp add: all_defs)
  from max_min_selection [OF v, of "[None, Some ''NaN'', Some ''Infinity'']"]
    max_min_selection [OF v, of "[]"] p2
  have e: "max_sf (Array [None, Some ''NaN'', Some ''Infinity'']) None = Inl NO_VALID_NUMBERS"
    "max_sf (Array []) None = Inl NO_VALID_NUMBERS"
    "min_sf (Array []) None = Inl NO_VALID_NUMBERS"
    "max_sf NotAnArray None = Inl NOT_AN_ARRAY"
    by simp_all
  from v w p1 p2 a b c d e show ?thesis by simp
qed

section \<open>Rounding half up, as a number\<close>

subsection \<open>The number a digit list denotes\<close>

lemma digits_nat_append:
  "digits_nat (xs @ ys) = digits_nat xs * 10 ^ length ys + digits_nat ys"
proof (induction ys rule: rev_induct)
  case Nil
  show ?case by (simp add: digits_nat_def)
next
  case (snoc y ys)
  have "digits_nat (xs @ ys @ [y]) = 10 * digits_nat (xs @ ys) + y"
    using digits_nat_snoc [of "xs @ ys" y] by simp
  also have "\<dots> = 10 * (digits_nat xs * 10 ^ length ys + digits_nat ys) + y"
    by (simp only: snoc.IH)
  also have "\<dots> = digits_nat xs * 10 ^ length (ys @ [y]) + (10 * digits_nat ys + y)"
    by (simp add: algebra_simps)
  also have "10 * digits_nat ys + y = digits_nat (ys @ [y])"
    by (simp only: digits_nat_snoc)
  finally show ?case .
qed

lemma digits_nat_single: "digits_nat [d] = d"
  by (simp add: digits_nat_def)

lemma digits_nat_Cons: "digits_nat (d # ds) = d * 10 ^ length ds + digits_nat ds"
  using digits_nat_append [of "[d]" ds] by (simp add: digits_nat_single)

lemma digits_nat_bound: "digits_ok ds \<Longrightarrow> digits_nat ds < 10 ^ length ds"
proof (induction ds)
  case Nil
  show ?case by (simp add: digits_nat_def)
next
  case (Cons d ds)
  then have d: "d \<le> 9" and r: "digits_nat ds < 10 ^ length ds"
    by (simp_all add: digits_ok_def)
  have "d * 10 ^ length ds + digits_nat ds < 9 * 10 ^ length ds + 10 ^ length ds"
    using d r by (intro add_le_less_mono mult_right_mono) simp_all
  then show ?case by (simp add: digits_nat_Cons)
qed

lemma incr_value:
  assumes "digits_ok ds" and "incr ds = (cy, ds')"
  shows "digits_nat ds + 1 = (if cy then 10 ^ length ds else 0) + digits_nat ds'"
  using assms
proof (induction ds arbitrary: cy ds')
  case Nil
  then show ?case by (auto simp: digits_nat_def)
next
  case (Cons d ds)
  obtain cy0 ds0 where i: "incr ds = (cy0, ds0)" by (cases "incr ds")
  from Cons.prems(1) have ok: "digits_ok ds" and d: "d < 10"
    by (simp_all add: digits_ok_def)
  note ih = Cons.IH [OF ok i]
  from incr_props [OF ok i] have len: "length ds0 = length ds" by simp
  show ?case
  proof (cases cy0)
    case True
    show ?thesis
    proof (cases "d + 1 > 9")
      case nine: True
      with d have d9: "d = 9" by simp
      from Cons.prems(2) i True nine have r: "cy = True" "ds' = 0 # ds0" by simp_all
      show ?thesis using ih True by (simp add: r digits_nat_Cons len d9)
    next
      case False
      from Cons.prems(2) i True False have r: "cy = False" "ds' = (d + 1) # ds0" by simp_all
      show ?thesis using ih True by (simp add: r digits_nat_Cons len algebra_simps)
    qed
  next
    case False
    from Cons.prems(2) i False have r: "cy = False" "ds' = d # ds0" by simp_all
    show ?thesis using ih False by (simp add: r digits_nat_Cons len)
  qed
qed

lemma digits_nat_strip0:
  "\<exists>j. length ds = length (strip0 ds) + j \<and> digits_nat ds = digits_nat (strip0 ds) * 10 ^ j"
proof -
  obtain j where j: "ds = strip0 ds @ replicate j 0" using strip0_decompose by blast
  then have "length ds = length (strip0 ds) + j"
    by (metis length_append length_replicate)
  moreover have "digits_nat ds = digits_nat (strip0 ds) * 10 ^ j"
    using digits_nat_zeros [of "strip0 ds" j] j by simp
  ultimately show ?thesis by blast
qed

lemma half_up_digit:
  assumes ok: "digits_ok ds" and n: "n < length ds"
  shows "(digits_nat ds + 5 * 10 ^ (length ds - n - 1)) div 10 ^ (length ds - n)
           = digits_nat (take n ds) + (if 5 \<le> ds ! n then 1 else 0)"
proof -
  define P :: nat where "P = 10 ^ (length ds - n - 1)"
  define T where "T = digits_nat (take n ds)"
  define R where "R = digits_nat (drop (Suc n) ds)"
  define d where "d = ds ! n"
  have pw: "(10::nat) ^ (length ds - n) = 10 * P"
    unfolding P_def using n
    by (metis Suc_diff_Suc diff_diff_left plus_1_eq_Suc power_Suc add.commute)
  have Ppos: "0 < P" by (simp add: P_def)
  have split: "ds = take n ds @ ds ! n # drop (Suc n) ds" by (rule id_take_nth_drop [OF n])
  have lr: "length (drop (Suc n) ds) = length ds - n - 1" by simp
  have "digits_nat ds = digits_nat (take n ds) * 10 ^ length (ds ! n # drop (Suc n) ds)
                          + digits_nat (ds ! n # drop (Suc n) ds)"
    by (subst split) (rule digits_nat_append)
  also have "length (ds ! n # drop (Suc n) ds) = length ds - n" using n by simp
  also have "digits_nat (ds ! n # drop (Suc n) ds) = d * P + R"
    unfolding digits_nat_Cons lr by (simp only: P_def R_def d_def)
  finally have N: "digits_nat ds = T * (10 * P) + (d * P + R)"
    by (simp only: pw T_def)
  have okr: "digits_ok (drop (Suc n) ds)"
    using ok by (simp add: digits_ok_def list_all_iff) (meson in_set_dropD)
  from digits_nat_bound [OF okr] have R: "R < P" by (simp only: lr R_def P_def)
  from ok n have d: "d < 10" by (simp add: digits_ok_def list_all_length d_def)
  define X where "X = d * P + R + 5 * P"
  have "(digits_nat ds + 5 * P) div (10 * P) = (X + T * (10 * P)) div (10 * P)"
    by (simp add: N X_def algebra_simps)
  also have "\<dots> = T + X div (10 * P)"
    using Ppos by (subst div_mult_self1) simp_all
  also have "X div (10 * P) = (if 5 \<le> d then 1 else 0)"
  proof (cases "5 \<le> d")
    case True
    have a: "5 * P \<le> d * P" using True by (rule mult_right_mono) simp
    have b: "d * P \<le> 9 * P" using d by (intro mult_right_mono) simp_all
    have "10 * P \<le> X" unfolding X_def using a by linarith
    then have lo: "10 * P * 1 \<le> X" by simp
    have "X < 20 * P" unfolding X_def using b R by linarith
    then have hi: "X < 10 * P * Suc 1" by simp
    from div_nat_eqI [OF lo hi] True show ?thesis by simp
  next
    case False
    then have "d * P \<le> 4 * P" by (intro mult_right_mono) simp_all
    with R have "X < 10 * P" unfolding X_def by linarith
    with False show ?thesis by simp
  qed
  finally show ?thesis by (simp only: pw P_def T_def d_def)
qed

subsection \<open>The value of a rounded decimal\<close>

lemma big_val_digits:
  "big_val x = (if big_neg x then - 1 else 1) * of_nat (digits_nat (big_c x))
                 * 10 powi (big_e x - int (length (big_c x)) + 1)"
  by (simp add: big_val_def big_mant_def big_scale_def)

lemma big_val_strip0: "big_val (x\<lparr>big_c := strip0 ds\<rparr>) = big_val (x\<lparr>big_c := ds\<rparr>)"
proof -
  obtain j where len: "length ds = length (strip0 ds) + j"
    and v: "digits_nat ds = digits_nat (strip0 ds) * 10 ^ j"
    using digits_nat_strip0 by blast
  have ex: "big_e x - int (length (strip0 ds)) + 1 = int j + (big_e x - int (length ds) + 1)"
    using len by simp
  have "(10::rat) powi (big_e x - int (length (strip0 ds)) + 1)
          = 10 ^ j * 10 powi (big_e x - int (length ds) + 1)"
    unfolding ex by (simp add: power_int_add)
  then show ?thesis
    by (simp add: big_val_digits v)
qed

lemma floor_half_nat: "\<lfloor>(of_nat m :: rat) + 1 / 2\<rfloor> = int m"
  by (rule floor_unique) simp_all

lemma floor_half_shift:
  assumes "1 \<le> j"
  shows "\<lfloor>(of_nat N :: rat) * 10 powi (- int j) + 1 / 2\<rfloor>
           = int ((N + 5 * 10 ^ (j - 1)) div 10 ^ j)"
proof -
  define P :: nat where "P = 10 ^ (j - 1)"
  from assms have pw: "(10::nat) ^ j = 10 * P"
    unfolding P_def by (cases j) simp_all
  have Ppos: "0 < P" by (simp add: P_def)
  have "(10::rat) powi (- int j) = 1 / of_nat (10 ^ j)"
    by (simp add: power_int_minus divide_inverse)
  then have "(of_nat N :: rat) * 10 powi (- int j) + 1 / 2
          = of_nat N / of_nat (10 * P) + of_nat (5 * P) / of_nat (10 * P)"
    using Ppos by (simp add: pw)
  also have "\<dots> = of_nat (N + 5 * P) / of_nat (10 * P)"
    by (simp only: of_nat_add add_divide_distrib)
  finally show ?thesis
    by (simp only: floor_divide_of_nat_eq pw P_def)
qed

lemma big_round_val:
  assumes ok: "digits_ok (big_c z)" and ne: "big_c z \<noteq> []"
  shows "big_val (big_round z sd)
         = (if big_neg z then - 1 else 1)
           * of_int \<lfloor>(of_nat (digits_nat (big_c z)) :: rat)
                       * 10 powi (sd - int (length (big_c z))) + 1 / 2\<rfloor>
           * 10 powi (big_e z - sd + 1)"
proof -
  define c where "c = big_c z"
  define L where "L = length c"
  define N where "N = digits_nat c"
  define sg :: rat where "sg = (if big_neg z then - 1 else 1)"
  have okc: "digits_ok c" and nec: "c \<noteq> []" using ok ne by (simp_all add: c_def)
  have Lpos: "1 \<le> L" using nec by (cases c) (simp_all add: L_def)
  have Nb: "N < 10 ^ L" unfolding N_def L_def by (rule digits_nat_bound [OF okc])
  have val: "\<And>ds e. big_val (z\<lparr>big_c := ds, big_e := e\<rparr>)
                 = sg * of_nat (digits_nat ds) * 10 powi (e - int (length ds) + 1)"
    by (simp add: big_val_digits sg_def)
  have val': "\<And>ds. big_val (z\<lparr>big_c := ds\<rparr>)
                 = sg * of_nat (digits_nat ds) * 10 powi (big_e z - int (length ds) + 1)"
    by (simp add: big_val_digits sg_def)
  have goal: "big_val (big_round z sd)
         = sg * of_int \<lfloor>(of_nat N :: rat) * 10 powi (sd - int L) + 1 / 2\<rfloor>
           * 10 powi (big_e z - sd + 1)"
  proof -
    consider (neg) "sd < 0" | (zero) "sd = 0" | (cut) "1 \<le> sd" "nat sd < L"
      | (keep) "1 \<le> sd" "L \<le> nat sd" by linarith
    then show ?thesis
    proof cases
      case neg
      define j where "j = nat (int L - sd)"
      from neg have j: "sd - int L = - int j" "1 \<le> j" "L \<le> j - 1" by (simp_all add: j_def)
      have r: "big_round z sd = z\<lparr>big_c := [0], big_e := 0\<rparr>"
        using neg by (simp add: big_round_def Let_def)
      have "(10::nat) ^ L \<le> 10 ^ (j - 1)" using j(3) by (intro power_increasing) simp_all
      with Nb have "N + 5 * 10 ^ (j - 1) < 10 * 10 ^ (j - 1)" by linarith
      also have "10 * 10 ^ (j - 1) = (10::nat) ^ j" using j(2) by (cases j) simp_all
      finally have "(N + 5 * 10 ^ (j - 1)) div 10 ^ j = 0" by simp
      then have "\<lfloor>(of_nat N :: rat) * 10 powi (sd - int L) + 1 / 2\<rfloor> = 0"
        unfolding j(1) by (simp only: floor_half_shift [OF j(2)] of_nat_0)
      then show ?thesis by (simp add: r val digits_nat_single)
    next
      case zero
      have z0: "0 < length c" using nec by simp
      have "(N + 5 * 10 ^ (L - 0 - 1)) div 10 ^ (L - 0)
              = digits_nat (take 0 c) + (if 5 \<le> c ! 0 then 1 else 0)"
        unfolding N_def L_def by (rule half_up_digit [OF okc z0])
      then have h: "(N + 5 * 10 ^ (L - 1)) div 10 ^ L = (if 5 \<le> c ! 0 then 1 else 0)"
        by (simp add: digits_nat_def)
      have fd: "first_digit c = c ! 0" using nec by (cases c) (simp_all add: first_digit_def)
      have fl: "\<lfloor>(of_nat N :: rat) * 10 powi (sd - int L) + 1 / 2\<rfloor> = (if 5 \<le> c ! 0 then 1 else 0)"
        using floor_half_shift [OF Lpos, of N] h zero by simp
      show ?thesis
      proof (cases "5 \<le> c ! 0")
        case True
        then have r: "big_round z sd = z\<lparr>big_c := [1], big_e := big_e z + 1\<rparr>"
          using zero fd by (simp add: big_round_def Let_def c_def)
        show ?thesis unfolding r fl val using True zero by (simp add: digits_nat_single)
      next
        case False
        then have r: "big_round z sd = z\<lparr>big_c := [0], big_e := 0\<rparr>"
          using zero fd by (simp add: big_round_def Let_def c_def)
        show ?thesis unfolding r fl val using False by (simp add: digits_nat_single)
      qed
    next
      case cut
      define n where "n = nat sd"
      define T where "T = digits_nat (take n c)"
      from cut have n: "n < length c" "int n = sd" "1 \<le> L - n" by (simp_all add: n_def L_def)
      have sh: "sd - int L = - int (L - n)" using n by (simp add: L_def)
      have "(N + 5 * 10 ^ (L - n - 1)) div 10 ^ (L - n) = T + (if 5 \<le> c ! n then 1 else 0)"
        unfolding N_def L_def T_def by (rule half_up_digit [OF okc n(1)])
      then have fl: "\<lfloor>(of_nat N :: rat) * 10 powi (sd - int L) + 1 / 2\<rfloor>
                       = int (T + (if 5 \<le> c ! n then 1 else 0))"
        unfolding sh by (simp only: floor_half_shift [OF n(3)] diff_diff_left) 
      have lt: "length (take n c) = n" using n(1) by simp
      have okt: "digits_ok (take n c)" by (rule digits_ok_take [OF okc])
      have ex: "big_e z - sd + 1 = big_e z - int n + 1" using n(2) by simp
      show ?thesis
      proof (cases "5 \<le> c ! n")
        case False
        then have r: "big_round z sd = z\<lparr>big_c := strip0 (take n c)\<rparr>"
          using cut by (simp add: big_round_def Let_def c_def n_def L_def)
        show ?thesis
          unfolding r big_val_strip0 val' lt fl ex using False by (simp add: T_def)
      next
        case True
        obtain cy ds' where i: "incr (take n c) = (cy, ds')" by (cases "incr (take n c)")
        from incr_props [OF okt i] have "length ds' = length (take n c)" by (rule conjunct1)
        then have len: "length ds' = n" by (simp only: lt)
        from incr_value [OF okt i] have iv: "T + 1 = (if cy then 10 ^ n else 0) + digits_nat ds'"
          by (simp only: lt T_def)
        show ?thesis
        proof (cases cy)
          case cyT: True
          then have r: "big_round z sd = z\<lparr>big_c := strip0 (1 # ds'), big_e := big_e z + 1\<rparr>"
            using cut True i by (simp add: big_round_def Let_def c_def n_def L_def)
          have sw: "z\<lparr>big_c := strip0 (1 # ds'), big_e := big_e z + 1\<rparr>
                      = (z\<lparr>big_e := big_e z + 1\<rparr>)\<lparr>big_c := strip0 (1 # ds')\<rparr>"
            by (cases z) simp
          have "big_val (big_round z sd) = big_val ((z\<lparr>big_e := big_e z + 1\<rparr>)\<lparr>big_c := strip0 (1 # ds')\<rparr>)"
            by (simp only: r sw)
          also have "\<dots> = big_val ((z\<lparr>big_e := big_e z + 1\<rparr>)\<lparr>big_c := 1 # ds'\<rparr>)"
            by (rule big_val_strip0)
          also have "\<dots> = sg * of_nat (digits_nat (1 # ds')) * 10 powi (big_e z - int n + 1)"
            by (simp add: big_val_digits sg_def len)
          also have "digits_nat (1 # ds') = T + 1"
            using iv cyT by (simp add: digits_nat_Cons len)
          finally show ?thesis unfolding fl ex using True by simp
        next
          case cyF: False
          then have r: "big_round z sd = z\<lparr>big_c := strip0 ds'\<rparr>"
            using cut True i by (simp add: big_round_def Let_def c_def n_def L_def)
          have "digits_nat ds' = T + 1" using iv cyF by simp
          then show ?thesis
            unfolding r big_val_strip0 val' len fl ex using True by simp
        qed
      qed
    next
      case keep
      define k where "k = nat sd - L"
      from keep have k: "sd - int L = int k" "big_e z - int L + 1 = int k + (big_e z - sd + 1)"
        by (simp_all add: k_def)
      have r: "big_round z sd = z" using keep by (simp add: big_round_def Let_def c_def L_def)
      have "(of_nat N :: rat) * 10 powi (sd - int L) + 1 / 2 = of_nat (N * 10 ^ k) + 1 / 2"
        unfolding k(1) by simp
      then have fl: "\<lfloor>(of_nat N :: rat) * 10 powi (sd - int L) + 1 / 2\<rfloor> = int (N * 10 ^ k)"
        by (simp only: floor_half_nat)
      have "big_val z = sg * of_nat N * 10 powi (big_e z - int L + 1)"
        by (simp add: big_val_digits sg_def N_def L_def c_def)
      also have "\<dots> = sg * of_nat N * (10 ^ k * 10 powi (big_e z - sd + 1))"
        unfolding k(2) by (simp add: power_int_add)
      finally show ?thesis unfolding r fl by simp
    qed
  qed
  then show ?thesis by (simp only: sg_def N_def L_def c_def)
qed

lemma round_well_formed:
  assumes "well_formed z"
  shows "well_formed (big_round z sd)"
proof (cases "sd < 1")
  case True
  then show ?thesis
    by (auto simp: big_round_def Let_def well_formed_def normal_def digits_ok_def)
next
  case False
  then have one: "1 \<le> sd" by simp
  show ?thesis
  proof (cases "normal z")
    case True
    from round_normal(1) [OF True one] show ?thesis by (simp add: well_formed_def)
  next
    case nz: False
    with assms have z: "big_c z = [0]" "big_e z = 0" by (simp_all add: well_formed_def)
    with one have "big_round z sd = z" by (simp add: big_round_def Let_def)
    with assms show ?thesis by simp
  qed
qed

lemma big_round_half_up:
  assumes wf: "well_formed z"
  shows "big_val (big_round z (dp + big_e z + 1)) = half_up (big_val z) dp"
proof -
  define N where "N = digits_nat (big_c z)"
  define L where "L = length (big_c z)"
  define sg :: rat where "sg = (if big_neg z then - 1 else 1)"
  note d = well_formed_digits [OF wf]
  have v: "big_val z = sg * (of_nat N * 10 powi (big_e z - int L + 1))"
    by (simp add: big_val_digits N_def L_def sg_def)
  have nn: "(0::rat) \<le> of_nat N * 10 powi (big_e z - int L + 1)" by simp
  have sq: "\<bar>sg\<bar> = 1" by (simp add: sg_def)
  have av: "\<bar>big_val z\<bar> = of_nat N * 10 powi (big_e z - int L + 1)"
    unfolding v abs_mult sq using nn by simp
  have "of_nat N * (10::rat) powi (big_e z - int L + 1) * 10 powi dp
          = of_nat N * (10 powi (big_e z - int L + 1) * 10 powi dp)" by simp
  also have "\<dots> = of_nat N * 10 powi (big_e z - int L + 1 + dp)"
    by (subst power_int_add [of 10 "big_e z - int L + 1" dp]) simp_all
  also have "big_e z - int L + 1 + dp = dp + big_e z + 1 - int L" by simp
  finally have sc: "\<bar>big_val z\<bar> * 10 powi dp = of_nat N * 10 powi (dp + big_e z + 1 - int L)"
    by (simp only: av)
  have ex: "big_e z - (dp + big_e z + 1) + 1 = - dp" by simp
  have r: "big_val (big_round z (dp + big_e z + 1))
             = sg * of_int \<lfloor>\<bar>big_val z\<bar> * 10 powi dp + 1 / 2\<rfloor> * 10 powi (- dp)"
    using big_round_val [OF conjunct2 [OF d] conjunct1 [OF d], of "dp + big_e z + 1"]
    by (simp only: sc ex N_def L_def sg_def)
  show ?thesis
  proof (cases "N = 0")
    case True
    then have "big_val z = 0" by (simp add: v)
    moreover have "\<lfloor>(1 / 2 :: rat)\<rfloor> = 0" by (rule floor_unique) simp_all
    ultimately show ?thesis unfolding r half_up_def by simp
  next
    case False
    then have pos: "(0::rat) < of_nat N * 10 powi (big_e z - int L + 1)" by simp
    have "sgn (big_val z) = sgn sg * sgn (of_nat N * 10 powi (big_e z - int L + 1))"
      unfolding v by (rule sgn_mult)
    also have "sgn (of_nat N * (10::rat) powi (big_e z - int L + 1)) = 1"
      using pos by (rule sgn_pos)
    also have "sgn sg = sg" by (simp add: sg_def)
    finally have "sgn (big_val z) = sg" by simp
    then show ?thesis unfolding r half_up_def by simp
  qed
qed

subsection \<open>Reading a fixed-point text back\<close>

lemma parse_fixed:
  assumes ok: "digits_ok D" and ne: "D \<noteq> []" and len: "int (length D) = dp + e + 1"
    and dp: "0 \<le> dp"
  defines "ds \<equiv> (if e < 0 then replicate (nat (- e)) 0 @ D else D)"
  shows "parse (stringify \<lparr>big_neg = ng, big_c = D, big_e = e\<rparr> False nz)
         = (if dropWhile (\<lambda>d. d = 0) ds = [] then Inr (big_zero (ng \<and> nz))
            else Inr \<lparr>big_neg = (ng \<and> nz), big_c = strip0 (dropWhile (\<lambda>d. d = 0) ds),
                      big_e = (if e < 0 then 1 else e + 1)
                              - int (length (takeWhile (\<lambda>d. d = 0) ds)) - 1\<rparr>)"
proof -
  let ?S = "map digit_char D"
  let ?x = "\<lparr>big_neg = ng, big_c = D, big_e = e\<rparr>"
  have S: "all_digits ?S" by (rule all_digits_map [OF ok])
  have rt: "map char_digit ?S = D" by (rule map_char_digit_map_digit_char [OF ok])
  have z: "all_digits ''0''" by (simp add: is_digit_def)
  have cz: "char_digit CHR ''0'' = 0" by (simp add: char_digit_def)
  consider (frac) "e < 0" | (point) "0 \<le> e" "0 < dp" | (whole) "0 \<le> e" "dp = 0"
    using dp by linarith
  then show ?thesis
  proof cases
    case frac
    let ?k = "nat (- e - 1)"
    have lay: "stringify ?x False nz
               = minus_sign (ng \<and> nz) @ (''0'' @ (if True then CHR ''.'' # (replicate ?k CHR ''0'' @ ?S) else []))
                 @ (if False then CHR ''e'' # [] else [])"
      using frac by (simp add: stringify_def minus_sign_def Let_def)
    have f: "all_digits (replicate ?k CHR ''0'' @ ?S)" using S by simp
    have "replicate (Suc ?k) (0::nat) = replicate (nat (- e)) 0"
      using frac by (simp add: Suc_nat_eq_nat_zadd1)
    then have dsv: "map char_digit (''0'' @ replicate ?k CHR ''0'' @ ?S) = ds"
      using rt frac by (simp add: cz ds_def)
    show ?thesis
      unfolding lay
      apply (subst parse_shape [OF z f])
         apply simp
        apply simp
       apply simp
      using frac by (simp only: dsv) (simp del: dropWhile_eq_Nil_conv)
  next
    case point
    let ?m = "nat (e + 1)"
    have lay: "stringify ?x False nz
               = minus_sign (ng \<and> nz) @ (take ?m ?S @ (if True then CHR ''.'' # drop ?m ?S else []))
                 @ (if False then CHR ''e'' # [] else [])"
      using point len by (auto simp: stringify_def minus_sign_def Let_def)
    have n: "take ?m ?S \<noteq> [] \<or> drop ?m ?S \<noteq> []" using ne by simp
    have lm: "int (length (take ?m ?S)) = e + 1" using point len by simp
    have dsv: "map char_digit (take ?m ?S @ drop ?m ?S) = ds" using rt point by (simp add: ds_def)
    show ?thesis
      unfolding lay
      apply (subst parse_shape [OF all_digits_take [OF S] all_digits_drop [OF S] n])
        apply simp
       apply simp
      using point by (simp only: dsv lm) (simp del: dropWhile_eq_Nil_conv)
  next
    case whole
    have lay: "stringify ?x False nz
               = minus_sign (ng \<and> nz) @ (?S @ (if False then CHR ''.'' # [] else []))
                 @ (if False then CHR ''e'' # [] else [])"
      using whole len ne by (auto simp: stringify_def minus_sign_def Let_def)
    have n: "?S \<noteq> [] \<or> ([]::string) \<noteq> []" using ne by simp
    have dsv: "map char_digit (?S @ []) = ds" using rt whole by (simp add: ds_def)
    have lm: "int (length ?S) = e + 1" using whole len by simp
    show ?thesis
      unfolding lay
      apply (subst parse_shape [OF S _ n])
         apply simp
        apply simp
       apply simp
      using whole by (simp only: dsv lm) (simp del: dropWhile_eq_Nil_conv)
  qed
qed

lemma big_val_zero: "big_c x = [0] \<Longrightarrow> big_val x = 0"
  by (simp add: big_val_digits digits_nat_single)

lemma toFixed_value:
  assumes wf: "well_formed z" and dp: "0 \<le> dp" and m: "dp \<le> MAX_DP"
  shows "\<exists>s r. toFixed z dp = Inr s \<and> parse s = Inr r \<and> big_val r = half_up (big_val z) dp"
proof -
  define y where "y = big_round z (dp + big_e z + 1)"
  define n where "n = nat (dp + big_e y + 1)"
  define D where "D = pad (big_c y) n"
  define nz where "nz = (first_digit (big_c z) \<noteq> 0)"
  note r = round_for_fixed [OF wf dp, folded y_def]
  have len: "int (length D) = dp + big_e y + 1"
    using r(3) by (simp add: D_def n_def pad_def)
  have rec: "y\<lparr>big_c := D\<rparr> = \<lparr>big_neg = big_neg y, big_c = D, big_e = big_e y\<rparr>"
    by (cases y) simp
  have pne: "D \<noteq> []" using r(1) by (simp add: D_def pad_def)
  have okD: "digits_ok D" unfolding D_def by (rule pad_digits_ok [OF r(2)])
  have tf: "toFixed z dp = Inr (stringify \<lparr>big_neg = big_neg y, big_c = D, big_e = big_e y\<rparr> False nz)"
    using dp m by (simp add: toFixed_def Let_def y_def [symmetric] n_def [symmetric]
        D_def [symmetric] rec nz_def)
  have wy: "well_formed y" unfolding y_def by (rule round_well_formed [OF wf])
  have vy: "big_val y = half_up (big_val z) dp"
    unfolding y_def by (rule big_round_half_up [OF wf])
  note pf = parse_fixed [OF okD pne len dp, of "big_neg y" nz]
  show ?thesis
  proof (cases "normal y")
    case True
    then have c: "big_c y \<noteq> []" "hd (big_c y) \<noteq> 0" "last (big_c y) \<noteq> 0"
      by (simp_all add: normal_def)
    have hD: "hd D \<noteq> 0" unfolding D_def using c by (simp add: pad_hd)
    have sD: "strip0 D = big_c y" unfolding D_def by (rule strip0_pad [OF c(1,3)])
    have nzT: nz
    proof (rule ccontr)
      assume "\<not> nz"
      then have fd: "first_digit (big_c z) = 0" by (simp add: nz_def)
      have "\<not> normal z"
        using fd by (cases "big_c z") (simp_all add: normal_def first_digit_def)
      with wf have zz: "big_c z = [0]" "big_e z = 0" by (simp_all add: well_formed_def)
      with dp have "y = z" by (simp add: y_def big_round_def Let_def)
      with zz c(2) show False by simp
    qed
    let ?ds = "if big_e y < 0 then replicate (nat (- big_e y)) 0 @ D else D"
    have dW: "dropWhile (\<lambda>d. d = 0) ?ds = D"
      using leading_zeros_block(1) [OF pne hD] leading_zeros_none(1) [OF pne hD] by simp
    have tW: "int (length (takeWhile (\<lambda>d. d = 0) ?ds)) = (if big_e y < 0 then - big_e y else 0)"
      using leading_zeros_block(2) [OF pne hD] leading_zeros_none(2) [OF pne hD] by simp
    have "parse (stringify \<lparr>big_neg = big_neg y, big_c = D, big_e = big_e y\<rparr> False nz)
            = Inr \<lparr>big_neg = big_neg y, big_c = big_c y, big_e = big_e y\<rparr>"
      unfolding pf dW tW sD using pne nzT by simp
    also have "\<lparr>big_neg = big_neg y, big_c = big_c y, big_e = big_e y\<rparr> = y" by simp
    finally show ?thesis using tf vy by blast
  next
    case False
    with wy have zy: "big_c y = [0]" "big_e y = 0" by (simp_all add: well_formed_def)
    have Dz: "D = replicate (Suc (nat dp)) 0"
      using dp by (simp add: D_def n_def pad_def zy replicate_append_same)
    have dW: "dropWhile (\<lambda>d. d = 0) D = []" unfolding Dz by simp
    have "parse (stringify \<lparr>big_neg = big_neg y, big_c = D, big_e = big_e y\<rparr> False nz)
            = Inr (big_zero (big_neg y \<and> nz))"
      unfolding pf using zy(2) dW by simp
    moreover have "big_val (big_zero (big_neg y \<and> nz)) = big_val y"
      using zy(1) by (simp add: big_val_zero big_zero_def)
    ultimately show ?thesis using tf vy by (metis)
  qed
qed

section \<open>Addition and subtraction at decimal places\<close>

lemma decimal_places_pair:
  assumes "digitsAfterDecimal a = Inr da" and "digitsAfterDecimal b = Inr db"
    and "0 \<le> da" and "0 \<le> db"
  shows "getDecimalPlacesForAddOrSub [a, b] = Inr (min da db)"
  using assms by (simp add: getDecimalPlacesForAddOrSub_def min_def)

lemma fixed_text:
  assumes wf: "well_formed z" and dp: "0 \<le> dp" and m: "dp \<le> MAX_DP"
  shows "\<exists>s r. toFixed z dp = Inr s \<and> digitsAfterDecimal s = Inr dp
           \<and> \<not> list_ex is_exp_char s
           \<and> parse s = Inr r \<and> big_val r = half_up (big_val z) dp"
proof -
  from toFixed_shape [OF wf dp m] obtain sg ip fp where
    h: "all_digits ip" "ip \<noteq> []" "all_digits fp" "int (length fp) = dp"
    and t: "toFixed z dp = Inr (minus_sign sg @ ip @ (if 0 < dp then CHR ''.'' # fp else []))"
    by blast
  let ?s = "minus_sign sg @ ip @ (if 0 < dp then CHR ''.'' # fp else [])"
  have d: "digitsAfterDecimal ?s = Inr dp" by (rule digitsAfterDecimal_fixed [OF h])
  have e: "\<not> list_ex is_exp_char ?s"
    using all_digits_no(2) [OF h(1)] all_digits_no(2) [OF h(3)]
    by (simp add: minus_sign_def is_exp_char_def)
  from toFixed_value [OF wf dp m] obtain s r where
    v: "toFixed z dp = Inr s" "parse s = Inr r" "big_val r = half_up (big_val z) dp" by blast
  from v(1) t have "s = ?s" by simp
  with t d e v(2,3) show ?thesis by blast
qed

lemma fixed_limit: "MAX_DP < dp \<Longrightarrow> toFixed r dp = Inl INVALID_DP"
  by (simp add: toFixed_def)

lemma add_unfold:
  assumes "parse a = Inr x" and "parse b = Inr y"
    and "getDecimalPlacesForAddOrSub [a, b] = Inr dp"
  shows "add a b None = catch_all (toFixed (big_plus x y) dp) INVALID_OPERANDS"
  using assms by (simp add: add_def validate_optional_def)

lemma sub_unfold:
  assumes "parse a = Inr x" and "parse b = Inr y"
    and "getDecimalPlacesForAddOrSub [a, b] = Inr dp"
  shows "sub a b None = catch_all (toFixed (big_minus x y) dp) INVALID_OPERANDS"
  using assms by (simp add: sub_def validate_optional_def)

text \<open>
  C4.  For operands \<open>a\<close> and \<open>b\<close> that parse, to the values \<open>x\<close> and \<open>y\<close>,
  \<open>digitsAfterDecimal\<close> gives each a count \<open>da\<close>, \<open>db\<close> of decimal places, and the places
  resolved for the pair are \<open>min da db\<close> (which is 0 as soon as one operand has none).
  Without an explicit number of significant figures, and when the resolved count does not
  exceed the limit \<open>MAX_DP\<close> of the decimal library, \<open>add\<close> returns a text in fixed-point
  notation (no exponent) whose own \<open>digitsAfterDecimal\<close> is \<open>min da db\<close> and which reads
  back as the exact sum of \<open>x\<close> and \<open>y\<close> rounded half up at that many places; \<open>sub\<close>
  does the same for the exact difference.  Beyond the limit both raise the invalid-operands
  error.
\<close>

theorem add_sub_decimal_places:
  assumes pa: "parse a = Inr x" and pb: "parse b = Inr y"
  shows "\<exists>da db. digitsAfterDecimal a = Inr da \<and> digitsAfterDecimal b = Inr db
           \<and> 0 \<le> da \<and> 0 \<le> db
           \<and> getDecimalPlacesForAddOrSub [a, b] = Inr (min da db)
           \<and> (if min da db \<le> MAX_DP
               then (\<exists>s r. add a b None = Inr s \<and> \<not> list_ex is_exp_char s
                         \<and> digitsAfterDecimal s = Inr (min da db) \<and> parse s = Inr r
                         \<and> big_val r = half_up (big_val x + big_val y) (min da db))
                  \<and> (\<exists>s r. sub a b None = Inr s \<and> \<not> list_ex is_exp_char s
                         \<and> digitsAfterDecimal s = Inr (min da db) \<and> parse s = Inr r
                         \<and> big_val r = half_up (big_val x - big_val y) (min da db))
               else add a b None = Inl INVALID_OPERANDS \<and> sub a b None = Inl INVALID_OPERANDS)"
proof -
  from digitsAfterDecimal_returns [OF pa] obtain da where
    da: "digitsAfterDecimal a = Inr da" "0 \<le> da" by blast
  from digitsAfterDecimal_returns [OF pb] obtain db where
    db: "digitsAfterDecimal b = Inr db" "0 \<le> db" by blast
  let ?dp = "min da db"
  have g: "getDecimalPlacesForAddOrSub [a, b] = Inr ?dp"
    by (rule decimal_places_pair [OF da(1) db(1) da(2) db(2)])
  note ua = add_unfold [OF pa pb g] and us = sub_unfold [OF pa pb g]
  have nn: "0 \<le> ?dp" using da(2) db(2) by simp
  have fin: "(if ?dp \<le> MAX_DP
               then (\<exists>s r. add a b None = Inr s \<and> \<not> list_ex is_exp_char s
                         \<and> digitsAfterDecimal s = Inr ?dp \<and> parse s = Inr r
                         \<and> big_val r = half_up (big_val x + big_val y) ?dp)
                  \<and> (\<exists>s r. sub a b None = Inr s \<and> \<not> list_ex is_exp_char s
                         \<and> digitsAfterDecimal s = Inr ?dp \<and> parse s = Inr r
                         \<and> big_val r = half_up (big_val x - big_val y) ?dp)
               else add a b None = Inl INVALID_OPERANDS \<and> sub a b None = Inl INVALID_OPERANDS)"
  proof (cases "?dp \<le> MAX_DP")
    case True
    have wp: "well_formed (big_plus x y)"
      unfolding big_plus_def Let_def by (rule big_of_scaled_well_formed)
    have wm: "well_formed (big_minus x y)"
      unfolding big_minus_def Let_def by (rule big_of_scaled_well_formed)
    from fixed_text [OF wp nn True] obtain s r where
      s: "toFixed (big_plus x y) ?dp = Inr s" "digitsAfterDecimal s = Inr ?dp"
         "\<not> list_ex is_exp_char s" "parse s = Inr r"
         "big_val r = half_up (big_val (big_plus x y)) ?dp" by blast
    from fixed_text [OF wm nn True] obtain t q where
      t: "toFixed (big_minus x y) ?dp = Inr t" "digitsAfterDecimal t = Inr ?dp"
         "\<not> list_ex is_exp_char t" "parse t = Inr q"
         "big_val q = half_up (big_val (big_minus x y)) ?dp" by blast
    have as: "add a b None = Inr s" unfolding ua by (simp add: s(1) catch_all_def)
    have st: "sub a b None = Inr t" unfolding us by (simp add: t(1) catch_all_def)
    have vr: "big_val r = half_up (big_val x + big_val y) ?dp"
      using s(5) by (simp only: big_val_plus)
    have vq: "big_val q = half_up (big_val x - big_val y) ?dp"
      using t(5) by (simp only: big_val_minus)
    have A: "\<exists>s r. add a b None = Inr s \<and> \<not> list_ex is_exp_char s
                         \<and> digitsAfterDecimal s = Inr ?dp \<and> parse s = Inr r
                         \<and> big_val r = half_up (big_val x + big_val y) ?dp"
      using as s(2,3,4) vr by blast
    have B: "\<exists>s r. sub a b None = Inr s \<and> \<not> list_ex is_exp_char s
                         \<and> digitsAfterDecimal s = Inr ?dp \<and> parse s = Inr r
                         \<and> big_val r = half_up (big_val x - big_val y) ?dp"
      using st t(2,3,4) vq by blast
    from A B True show ?thesis by (simp only: if_True simp_thms)
  next
    case False
    then have lim: "MAX_DP < ?dp" by (simp only: not_le)
    have "add a b None = Inl INVALID_OPERANDS"
      unfolding ua by (simp add: fixed_limit [OF lim] catch_all_def)
    moreover have "sub a b None = Inl INVALID_OPERANDS"
      unfolding us by (simp add: fixed_limit [OF lim] catch_all_def)
    ultimately show ?thesis using False by (simp only: if_False)
  qed
  from da db g fin show ?thesis by blast
qed

text \<open>
  C4, as stated, fails: the operand \<open>1e-1000001\<close> parses and has 1000001 decimal places,
  more than the decimal library renders in fixed-point notation, so \<open>add\<close> returns no text
  for it and raises the invalid-operands error.
\<close>

theorem add_decimal_places_counterexample:
  "parse ''1e-1000001'' = Inr \<lparr>big_neg = False, big_c = [1], big_e = - 1000001\<rparr>
   \<and> digitsAfterDecimal ''1e-1000001'' = Inr 1000001
   \<and> add ''1e-1000001'' ''1e-1000001'' None = Inl INVALID_OPERANDS"
proof -
  have p: "parse ''1e-1000001'' = Inr \<lparr>big_neg = False, big_c = [1], big_e = - 1000001\<rparr>"
    by (simp add: text_defs big_defs Let_def)
  have d: "digitsAfterDecimal ''1e-1000001'' = Inr 1000001"
    by (simp add: text_defs big_defs js_defs fmt_defs Let_def)
  have g: "getDecimalPlacesForAddOrSub [''1e-1000001'', ''1e-1000001''] = Inr 1000001"
    by (simp add: getDecimalPlacesForAddOrSub_def d)
  have "add ''1e-1000001'' ''1e-1000001'' None = Inl INVALID_OPERANDS"
    by (simp add: add_def validate_optional_def p g toFixed_def MAX_DP_def catch_all_def)
  with p d show ?thesis by simp
qed

text \<open>
  The theorem at \<open>add(1.23, 4.5)\<close> and \<open>sub(1.23, 4.5)\<close>, and at \<open>add(123, 4.567)\<close>,
  where one operand is whole.
\<close>

theorem add_sub_decimal_places_witness:
  "parse ''1.23'' = Inr \<lparr>big_neg = False, big_c = [1, 2, 3], big_e = 0\<rparr>
   \<and> parse ''4.5'' = Inr \<lparr>big_neg = False, big_c = [4, 5], big_e = 0\<rparr>
   \<and> digitsAfterDecimal ''1.23'' = Inr 2 \<and> digitsAfterDecimal ''4.5'' = Inr 1
   \<and> add ''1.23'' ''4.5'' None = Inr ''5.7'' \<and> digitsAfterDecimal ''5.7'' = Inr 1
   \<and> sub ''1.23'' ''4.5'' None = Inr ''-3.3'' \<and> digitsAfterDecimal ''-3.3'' = Inr 1
   \<and> parse ''123'' = Inr \<lparr>big_neg = False, big_c = [1, 2, 3], big_e = 2\<rparr>
   \<and> parse ''4.567'' = Inr \<lparr>big_neg = False, big_c = [4, 5, 6, 7], big_e = 0\<rparr>
   \<and> add ''123'' ''4.567'' None = Inr ''128'' \<and> digitsAfterDecimal ''128'' = Inr 0"
proof -
  have pa: "parse ''1.23'' = Inr \<lparr>big_neg = False, big_c = [1, 2, 3], big_e = 0\<rparr>"
    by (simp add: text_defs big_defs Let_def)
  have pb: "parse ''4.5'' = Inr \<lparr>big_neg = False, big_c = [4, 5], big_e = 0\<rparr>"
    by (simp add: text_defs big_defs Let_def)
  have pc: "parse ''123'' = Inr \<lparr>big_neg = False, big_c = [1, 2, 3], big_e = 2\<rparr>"
    by (simp add: text_defs big_defs Let_def)
  have pd: "parse ''4.567'' = Inr \<lparr>big_neg = False, big_c = [4, 5, 6, 7], big_e = 0\<rparr>"
    by (simp add: text_defs big_defs Let_def)
  have da: "digitsAfterDecimal ''1.23'' = Inr 2"
    by (simp add: text_defs big_defs js_defs fmt_defs Let_def)
  have db: "digitsAfterDecimal ''4.5'' = Inr 1"
    by (simp add: text_defs big_defs js_defs fmt_defs Let_def)
  have dc: "digitsAfterDecimal ''123'' = Inr 0"
    by (simp add: text_defs big_defs js_defs fmt_defs Let_def)
  have dd: "digitsAfterDecimal ''4.567'' = Inr 3"
    by (simp add: text_defs big_defs js_defs fmt_defs Let_def)
  have a: "add ''1.23'' ''4.5'' None = Inr ''5.7''" by (simp add: all_defs)
  have s: "sub ''1.23'' ''4.5'' None = Inr ''-3.3''" by (simp add: all_defs)
  have c: "add ''123'' ''4.567'' None = Inr ''128''" by (simp add: all_defs)
  from add_sub_decimal_places [OF pa pb] da db a s
  have e: "digitsAfterDecimal ''5.7'' = Inr 1" "digitsAfterDecimal ''-3.3'' = Inr 1"
    by (auto simp: MAX_DP_def)
  from add_sub_decimal_places [OF pc pd] dc dd c
  have f: "digitsAfterDecimal ''128'' = Inr 0"
    by (auto simp: MAX_DP_def)
  from pa pb pc pd da db a s c e f show ?thesis by simp
qed

end
